theory Spec2Isabelle
  imports Main "HOL-Library.Word" "HOL-Library.Multiset" "HOL-Library.Sublist"
begin

section \<open>The segment index (page\_grouping/segment\_index.cc)\<close>

text \<open>
  \<^verbatim>\<open>Key\<close> is a 64-bit unsigned integer; \<^verbatim>\<open>std::numeric_limits<Key>::max()\<close> is the
  word of all ones. The index is a \<^verbatim>\<open>std::map<Key, SegmentInfo>\<close>: an ordered container
  with unique keys, modelled by the list of its pairs in iteration order. What
  \<^verbatim>\<open>std::map\<close> guarantees of that list is \<open>index_ok\<close>: the keys are strictly
  ascending. An iterator is a position in the list; \<^verbatim>\<open>begin()\<close> is \<open>0\<close> and
  \<^verbatim>\<open>end()\<close> is the length.
\<close>

type_synonym Key = "64 word"

definition Key_max :: Key where
  "Key_max = - 1"

text \<open>
  Modelled from the spec: \<^verbatim>\<open>SegmentInfo\<close> is declared in a header that is not part of
  the sources; section 3 gives it as the descriptor \<open>(id, pageCount, hasOverflow)\<close>.
\<close>

record SegmentInfo =
  seg_id :: nat
  page_count :: nat
  has_overflow :: bool

record Entry =
  lower :: Key
  upper :: Key
  sinfo :: SegmentInfo

type_synonym OrderedMap = "(Key \<times> SegmentInfo) list"

datatype fault =
  Invalid_Iterator | Assertion_Failed | Null_Chain | Out_Of_Range | Length_Error | Bad_Alloc

definition index_ok :: "OrderedMap \<Rightarrow> bool" where
  "index_ok idx = sorted_wrt (<) (map fst idx)"

definition upper_bound :: "OrderedMap \<Rightarrow> Key \<Rightarrow> nat" where
  "upper_bound idx key = length (takeWhile (\<lambda>e. fst e \<le> key) idx)"

definition lower_bound :: "OrderedMap \<Rightarrow> Key \<Rightarrow> nat" where
  "lower_bound idx key = length (takeWhile (\<lambda>e. fst e < key) idx)"

definition find_key :: "OrderedMap \<Rightarrow> Key \<Rightarrow> nat" where
  "find_key idx key =
     (let it = lower_bound idx key
      in if it < length idx \<and> fst (idx ! it) = key then it else length idx)"

text \<open>
  \<^verbatim>\<open>SegmentForKeyImpl\<close>: the entry after the last one whose key is at most \<open>key\<close>,
  stepped back by one unless it is the first.
\<close>

definition SegmentForKeyImpl :: "OrderedMap \<Rightarrow> Key \<Rightarrow> nat" where
  "SegmentForKeyImpl idx key =
     (let it = upper_bound idx key
      in if it \<noteq> 0 then it - 1 else it)"

text \<open>
  \<^verbatim>\<open>IndexIteratorToEntry\<close> reads the entry at a valid position \<open>it\<close> and the key of
  its successor. Its callers below pass a position only after the test the source makes
  (or fault where the source dereferences \<^verbatim>\<open>end()\<close>).
\<close>

definition IndexIteratorToEntry :: "OrderedMap \<Rightarrow> nat \<Rightarrow> Entry" where
  "IndexIteratorToEntry idx it =
     \<lparr> lower = fst (idx ! it),
       upper = (if Suc it = length idx then Key_max else fst (idx ! Suc it)),
       sinfo = snd (idx ! it) \<rparr>"

definition SegmentForKey :: "OrderedMap \<Rightarrow> Key \<Rightarrow> fault + Entry" where
  "SegmentForKey idx key =
     (let it = SegmentForKeyImpl idx key
      in if it < length idx then Inr (IndexIteratorToEntry idx it) else Inl Invalid_Iterator)"

definition GetSegmentBoundsFor :: "OrderedMap \<Rightarrow> Key \<Rightarrow> fault + (Key \<times> Key)" where
  "GetSegmentBoundsFor idx key =
     (let it = SegmentForKeyImpl idx key
      in if it < length idx
         then (let lower = fst (idx ! it); it' = Suc it
               in if it' = length idx then Inr (lower, Key_max)
                  else Inr (lower, fst (idx ! it')))
         else Inl Invalid_Iterator)"

definition SetSegmentOverflow :: "OrderedMap \<Rightarrow> Key \<Rightarrow> bool \<Rightarrow> fault + OrderedMap" where
  "SetSegmentOverflow idx key overflow =
     (let it = SegmentForKeyImpl idx key
      in if it < length idx
         then Inr (idx[it := (fst (idx ! it), (snd (idx ! it))\<lparr>has_overflow := overflow\<rparr>)])
         else Inl Invalid_Iterator)"

text \<open>
  The entries of the index as \<^verbatim>\<open>IndexIteratorToEntry\<close> gives them, and the half-open
  range test \<open>lower \<le> K < upper\<close> of section 8.
\<close>

definition entries :: "OrderedMap \<Rightarrow> Entry list" where
  "entries idx = map (IndexIteratorToEntry idx) [0..<length idx]"

definition in_range :: "Entry \<Rightarrow> Key \<Rightarrow> bool" where
  "in_range e K = (lower e \<le> K \<and> K < upper e)"

definition covering :: "OrderedMap \<Rightarrow> Key \<Rightarrow> nat list" where
  "covering idx K = filter (\<lambda>i. in_range (IndexIteratorToEntry idx i) K) [0..<length idx]"

text \<open>
  The spec's words for the lookup (section 4.E): the entry \<open>(lower, upperExclusive,
  SegmentInfo)\<close> of the index with the greatest \<open>lower \<le> key\<close>.
\<close>

definition is_predecessor_of :: "OrderedMap \<Rightarrow> Key \<Rightarrow> Entry \<Rightarrow> bool" where
  "is_predecessor_of idx K e =
     (e \<in> set (entries idx) \<and> lower e \<le> K \<and> (\<forall>p\<in>set idx. fst p \<le> K \<longrightarrow> fst p \<le> lower e))"

text \<open>A two-segment index for the examples.\<close>

definition idx2 :: OrderedMap where
  "idx2 = [(10, \<lparr>seg_id = 1, page_count = 4, has_overflow = False\<rparr>),
           (20, \<lparr>seg_id = 2, page_count = 8, has_overflow = True\<rparr>)]"

section \<open>Finding and locking a rewrite region (SegmentIndex::FindAndLockRewriteRegion)\<close>

text \<open>
  Modelled from the spec: the segment lock manager (its source is not among the files).
  Section 4.F gives one latch per segment id with three modes, where a held \<open>Read\<close>
  admits further \<open>Read\<close> requests and every other combination is refused;
  \<^verbatim>\<open>TryAcquireSegmentLock\<close> does not block, and a release is matched to its mode.
\<close>

datatype SegmentMode = Mode_Read | Mode_Write | kReorg

datatype lock_state = Unlocked | Read_Locked nat | Write_Locked | Reorg_Locked

type_synonym LockManager = "nat \<Rightarrow> lock_state"

fun grant :: "lock_state \<Rightarrow> SegmentMode \<Rightarrow> lock_state option" where
  "grant Unlocked Mode_Read = Some (Read_Locked 1)"
| "grant (Read_Locked n) Mode_Read = Some (Read_Locked (Suc n))"
| "grant Unlocked Mode_Write = Some Write_Locked"
| "grant Unlocked kReorg = Some Reorg_Locked"
| "grant _ _ = None"

fun unlock :: "lock_state \<Rightarrow> SegmentMode \<Rightarrow> lock_state" where
  "unlock (Read_Locked n) Mode_Read = (if n \<le> 1 then Unlocked else Read_Locked (n - 1))"
| "unlock Write_Locked Mode_Write = Unlocked"
| "unlock Reorg_Locked kReorg = Unlocked"
| "unlock st _ = st"

definition TryAcquireSegmentLock :: "LockManager \<Rightarrow> nat \<Rightarrow> SegmentMode \<Rightarrow> bool \<times> LockManager" where
  "TryAcquireSegmentLock lm i mode =
     (case grant (lm i) mode of None \<Rightarrow> (False, lm) | Some st \<Rightarrow> (True, lm(i := st)))"

definition ReleaseSegmentLock :: "LockManager \<Rightarrow> nat \<Rightarrow> SegmentMode \<Rightarrow> LockManager" where
  "ReleaseSegmentLock lm i mode = lm(i := unlock (lm i) mode)"

text \<open>
  The two walks of lines 92--113. \<open>search_radius\<close> is a 32-bit count that is only
  decremented; the walks take it as the natural number \<open>unat search_radius\<close>.
  \<open>scan_backward\<close> is entered with \<open>prev_it \<noteq> begin()\<close> and steps back before it
  reads; \<open>scan_forward\<close> reads only after \<open>next_it \<noteq> end()\<close>.
\<close>

fun scan_backward :: "OrderedMap \<Rightarrow> nat \<Rightarrow> nat \<Rightarrow> Entry list \<Rightarrow> Entry list" where
  "scan_backward idx prev_it 0 segs = segs"
| "scan_backward idx prev_it (Suc num_to_check) segs =
     (let prev_it' = prev_it - 1
      in if \<not> has_overflow (snd (idx ! prev_it')) then segs
         else let segs' = segs @ [IndexIteratorToEntry idx prev_it']
              in if prev_it' = 0 then segs'
                 else scan_backward idx prev_it' num_to_check segs')"

fun scan_forward :: "OrderedMap \<Rightarrow> nat \<Rightarrow> nat \<Rightarrow> Entry list \<Rightarrow> Entry list" where
  "scan_forward idx next_it 0 segs = segs"
| "scan_forward idx next_it (Suc num_to_check) segs =
     (if next_it = length idx then segs
      else if \<not> has_overflow (snd (idx ! next_it)) then segs
      else scan_forward idx (Suc next_it) num_to_check (segs @ [IndexIteratorToEntry idx next_it]))"

definition collect_region :: "OrderedMap \<Rightarrow> Key \<Rightarrow> 32 word \<Rightarrow> fault + Entry list" where
  "collect_region idx segment_base search_radius =
     (let it = lower_bound idx segment_base
      in if it = length idx then Inl Assertion_Failed
         else let segs = [IndexIteratorToEntry idx it];
                  segs = (if it \<noteq> 0 then scan_backward idx it (unat search_radius) segs else segs)
              in Inr (scan_forward idx (Suc it) (unat search_radius) segs))"

text \<open>
  The lock loop of lines 126--134: try the \<open>Reorg\<close> lock of one segment until it is
  granted. The backoff between attempts only waits. No other thread runs in this model,
  so a refused attempt is refused for ever and the loop does not return (\<open>None\<close>).
  \<open>acquire_in_order\<close> also records the ids in the order their locks were granted.
\<close>

partial_function (option) acquire_reorg :: "LockManager \<Rightarrow> nat \<Rightarrow> LockManager option" where
  "acquire_reorg lm i =
     (case TryAcquireSegmentLock lm i kReorg of
        (lock_granted, lm') \<Rightarrow> if lock_granted then Some lm' else acquire_reorg lm' i)"

declare acquire_reorg.simps [code]

fun acquire_in_order :: "LockManager \<Rightarrow> nat list \<Rightarrow> Entry list \<Rightarrow> (LockManager \<times> nat list) option" where
  "acquire_in_order lm acquired [] = Some (lm, acquired)"
| "acquire_in_order lm acquired (seg # segs) =
     (case acquire_reorg lm (seg_id (sinfo seg)) of
        None \<Rightarrow> None
      | Some lm' \<Rightarrow> acquire_in_order lm' (acquired @ [seg_id (sinfo seg)]) segs)"

text \<open>
  Lines 139--150: starting from \<^verbatim>\<open>find(front().lower)\<close>, every collected lower bound
  must be the key at the next position of the index.
\<close>

fun revalidate :: "OrderedMap \<Rightarrow> nat \<Rightarrow> Entry list \<Rightarrow> bool" where
  "revalidate idx it [] = True"
| "revalidate idx it (seg # segs) =
     (if it = length idx \<or> fst (idx ! it) \<noteq> lower seg then False
      else revalidate idx (Suc it) segs)"

fun release_all :: "LockManager \<Rightarrow> Entry list \<Rightarrow> LockManager" where
  "release_all lm [] = lm"
| "release_all lm (seg # segs) =
     release_all (ReleaseSegmentLock lm (seg_id (sinfo seg)) kReorg) segs"

text \<open>
  The whole call. \<open>idx\<close> is the index as the first latched block reads it and \<open>idx'\<close>
  the index as the revalidation block reads it: other threads may have changed it in
  between. The result holds the returned vector, the lock manager afterwards and the
  order in which the locks were granted. \<^verbatim>\<open>std::sort\<close> on the lower bounds is
  \<open>sort_key lower\<close>; the lower bounds of a collected vector are distinct, so the order
  of equal elements does not arise.
\<close>

record RewriteRegion =
  segments :: "Entry list"
  lock_manager :: LockManager
  acquired :: "nat list"

definition FindAndLockRewriteRegion ::
  "OrderedMap \<Rightarrow> OrderedMap \<Rightarrow> LockManager \<Rightarrow> Key \<Rightarrow> 32 word \<Rightarrow> (fault + RewriteRegion) option" where
  "FindAndLockRewriteRegion idx idx' lm segment_base search_radius =
     (case collect_region idx segment_base search_radius of
        Inl f \<Rightarrow> Some (Inl f)
      | Inr segs \<Rightarrow>
          (let segments_to_rewrite = sort_key lower segs
           in case acquire_in_order lm [] segments_to_rewrite of
                None \<Rightarrow> None
              | Some (lm1, acq) \<Rightarrow>
                  (let still_valid =
                         revalidate idx' (find_key idx' (lower (hd segments_to_rewrite)))
                           segments_to_rewrite
                   in if \<not> still_valid
                      then Some (Inr \<lparr>segments = [],
                                      lock_manager = release_all lm1 segments_to_rewrite,
                                      acquired = acq\<rparr>)
                      else Some (Inr \<lparr>segments = segments_to_rewrite, lock_manager = lm1,
                                      acquired = acq\<rparr>))))"


text \<open>
  From the spec's words (section 4.E, step 1): a walk over the neighbouring segments,
  nearest first, takes at most \<open>radius\<close> of them and stops at the first one without
  overflow, which it leaves out. \<open>rewrite_region\<close> is the run of entries around
  position \<open>i\<close> that the two walks reach, in index order.
\<close>

definition segment_ids :: "Entry list \<Rightarrow> nat list" where
  "segment_ids segs = map (\<lambda>seg. seg_id (sinfo seg)) segs"

definition walk_length :: "nat \<Rightarrow> OrderedMap \<Rightarrow> nat" where
  "walk_length radius segs = length (takeWhile (\<lambda>e. has_overflow (snd e)) (take radius segs))"

definition idx5 :: OrderedMap where
  "idx5 = [(10, \<lparr>seg_id = 1, page_count = 4, has_overflow = True\<rparr>),
           (20, \<lparr>seg_id = 2, page_count = 8, has_overflow = False\<rparr>),
           (30, \<lparr>seg_id = 3, page_count = 1, has_overflow = True\<rparr>),
           (40, \<lparr>seg_id = 4, page_count = 2, has_overflow = False\<rparr>),
           (50, \<lparr>seg_id = 5, page_count = 2, has_overflow = True\<rparr>),
           (60, \<lparr>seg_id = 6, page_count = 2, has_overflow = True\<rparr>),
           (70, \<lparr>seg_id = 7, page_count = 2, has_overflow = True\<rparr>)]"

definition rewrite_region :: "OrderedMap \<Rightarrow> nat \<Rightarrow> nat \<Rightarrow> Entry list" where
  "rewrite_region idx i radius =
     map (IndexIteratorToEntry idx)
       [i - walk_length radius (rev (take i idx)) ..< Suc (i + walk_length radius (drop (Suc i) idx))]"

section \<open>The deferred-I/O simulation (bench/deferred\_io\_simulation.cc)\<close>

text \<open>
  Modelled from the spec: the memtable (its source is not among the files). Section 4.G
  gives an ordered multiset keyed by \<open>(key, seq)\<close> whose iterator yields the entries in
  ascending key, then in insertion order; \<^verbatim>\<open>Add\<close> never updates in place. A memtable is
  the list of its entries in iteration order, and a key is the 64-bit number the 8-byte
  slice holds.
\<close>

datatype EntryType = kWrite | kDelete

type_synonym MemTable = "(Key \<times> string \<times> EntryType) list"

definition MemTable_Add :: "MemTable \<Rightarrow> Key \<Rightarrow> string \<Rightarrow> EntryType \<Rightarrow> MemTable" where
  "MemTable_Add mt k v t =
     takeWhile (\<lambda>e. fst e \<le> k) mt @ (k, v, t) # dropWhile (\<lambda>e. fst e \<le> k) mt"

text \<open>
  A request of the workload. The loop of \<^verbatim>\<open>main\<close> only asks whether the operation is
  \<^verbatim>\<open>kRead\<close> or \<^verbatim>\<open>kScan\<close>; every other operation is treated as an insert.
\<close>

datatype Operation = kInsert | kUpdate | kRead | kScan

record Request =
  req_op :: Operation
  req_key :: Key
  req_value :: string

text \<open>
  What the loop reads and never writes: the two policy flags and the flush threshold
  (64-bit flags), the number of pages, and the two computations whose code is not among
  the files, taken as parameters: the page a key belongs to
  (\<^verbatim>\<open>rs.GetEstimatedPosition(__builtin_bswap64(key)) / records_per_page\<close>) and the
  memtable's \<^verbatim>\<open>ApproximateMemoryUsage\<close>.
\<close>

record sim_env =
  io_threshold :: "64 word"
  max_deferrals :: "64 word"
  memtable_flush_threshold :: "64 word"
  num_pages :: nat
  page_id_of :: "Key \<Rightarrow> nat"
  ApproximateMemoryUsage :: "MemTable \<Rightarrow> nat"

text \<open>
  The bookkeeping of lines 75--83. The counters are \<^verbatim>\<open>size_t\<close> and \<^verbatim>\<open>uint64_t\<close>:
  64-bit words, whose \<open>+ 1\<close> wraps around.
\<close>

record sim_state =
  memtable :: MemTable
  backup_memtable :: MemTable
  memtable_entries_per_page :: "64 word list"
  page_deferral_count :: "64 word list"
  flushed_this_time :: "bool list"
  num_flushes :: "64 word"
  num_ios :: "64 word"
  num_reqs :: "64 word"
  num_inserts :: "64 word"

definition initial_state :: "sim_env \<Rightarrow> sim_state" where
  "initial_state env =
     \<lparr> memtable = [], backup_memtable = [],
       memtable_entries_per_page = replicate (num_pages env) 0,
       page_deferral_count = replicate (num_pages env) 0,
       flushed_this_time = replicate (num_pages env) False,
       num_flushes = 0, num_ios = 0, num_reqs = 0, num_inserts = 0 \<rparr>"

text \<open>
  Lines 104--116, the first loop of a flush cycle, over the entries in iteration order.
  Indexing a vector at or beyond \<open>num_pages\<close> is undefined in the source and a fault
  here.
\<close>

definition should_flush :: "sim_env \<Rightarrow> sim_state \<Rightarrow> nat \<Rightarrow> bool" where
  "should_flush env s page_id =
     (memtable_entries_per_page s ! page_id \<ge> io_threshold env \<or>
      page_deferral_count s ! page_id \<ge> max_deferrals env)"

fun plan_flush :: "sim_env \<Rightarrow> sim_state \<Rightarrow> MemTable \<Rightarrow> fault + sim_state" where
  "plan_flush env s [] = Inr s"
| "plan_flush env s ((k, v, t) # rest) =
     (let page_id = page_id_of env k
      in if \<not> page_id < num_pages env then Inl Out_Of_Range
         else if should_flush env s page_id
         then plan_flush env (s\<lparr>flushed_this_time := (flushed_this_time s)[page_id := True]\<rparr>) rest
         else plan_flush env (s\<lparr>backup_memtable := MemTable_Add (backup_memtable s) k v t\<rparr>) rest)"

text \<open>Lines 118--127, the body of the second loop, for page \<open>i\<close>.\<close>

definition flush_page :: "nat \<Rightarrow> sim_state \<Rightarrow> sim_state" where
  "flush_page i s =
     (if flushed_this_time s ! i
      then s\<lparr> num_ios := num_ios s + 1,
              memtable_entries_per_page := (memtable_entries_per_page s)[i := 0],
              page_deferral_count := (page_deferral_count s)[i := 0],
              flushed_this_time := (flushed_this_time s)[i := False] \<rparr>
      else s\<lparr> page_deferral_count := (page_deferral_count s)[i := page_deferral_count s ! i + 1] \<rparr>)"

text \<open>
  A flush cycle (lines 102--132): count it, plan, go over the pages, swap the memtables.
  \<open>planned\<close> is the state between the two loops, where the flags say which pages are
  flushed this round.
\<close>

definition planned :: "sim_env \<Rightarrow> sim_state \<Rightarrow> fault + sim_state" where
  "planned env s = plan_flush env (s\<lparr>num_flushes := num_flushes s + 1\<rparr>) (memtable s)"

definition flush_cycle :: "sim_env \<Rightarrow> sim_state \<Rightarrow> fault + sim_state" where
  "flush_cycle env s =
     (case planned env s of
        Inl f \<Rightarrow> Inl f
      | Inr s1 \<Rightarrow>
          (let s2 = fold flush_page [0..<num_pages env] s1
           in Inr (s2\<lparr>memtable := backup_memtable s2, backup_memtable := []\<rparr>)))"

text \<open>
  Lines 87--98: one request up to, and not including, the flush test; and the whole loop
  body with the test of line 101.
\<close>

definition add_request :: "sim_env \<Rightarrow> sim_state \<Rightarrow> Request \<Rightarrow> fault + sim_state" where
  "add_request env s req =
     (let s = s\<lparr>num_reqs := num_reqs s + 1\<rparr>
      in if req_op req = kRead \<or> req_op req = kScan then Inr s
         else let s = s\<lparr> num_inserts := num_inserts s + 1,
                          memtable := MemTable_Add (memtable s) (req_key req) (req_value req) kWrite \<rparr>;
                  insert_page_id = page_id_of env (req_key req)
              in if \<not> insert_page_id < num_pages env then Inl Out_Of_Range
                 else Inr (s\<lparr>memtable_entries_per_page :=
                              (memtable_entries_per_page s)
                                [insert_page_id := memtable_entries_per_page s ! insert_page_id + 1]\<rparr>))"

definition process_request :: "sim_env \<Rightarrow> sim_state \<Rightarrow> Request \<Rightarrow> fault + sim_state" where
  "process_request env s req =
     (case add_request env s req of
        Inl f \<Rightarrow> Inl f
      | Inr s' \<Rightarrow>
          if req_op req = kRead \<or> req_op req = kScan then Inr s'
          else if ApproximateMemoryUsage env (memtable s') \<ge> unat (memtable_flush_threshold env)
          then flush_cycle env s' else Inr s')"

fun run_workload :: "sim_env \<Rightarrow> sim_state \<Rightarrow> Request list \<Rightarrow> fault + sim_state" where
  "run_workload env s [] = Inr s"
| "run_workload env s (req # reqs) =
     (case process_request env s req of Inl f \<Rightarrow> Inl f | Inr s' \<Rightarrow> run_workload env s' reqs)"

fun add_requests :: "sim_env \<Rightarrow> sim_state \<Rightarrow> Request list \<Rightarrow> fault + sim_state" where
  "add_requests env s [] = Inr s"
| "add_requests env s (req # reqs) =
     (case add_request env s req of Inl f \<Rightarrow> Inl f | Inr s' \<Rightarrow> add_requests env s' reqs)"

text \<open>
  What holds of the state between two requests: the three vectors have \<open>num_pages\<close>
  elements, no flag is set, the backup memtable is empty, the memtable is in key order
  and its keys belong to pages below \<open>num_pages\<close>.
\<close>

definition state_ok :: "sim_env \<Rightarrow> sim_state \<Rightarrow> bool" where
  "state_ok env s =
     (length (memtable_entries_per_page s) = num_pages env \<and>
      length (page_deferral_count s) = num_pages env \<and>
      length (flushed_this_time s) = num_pages env \<and>
      (\<forall>b\<in>set (flushed_this_time s). \<not> b) \<and>
      backup_memtable s = [] \<and>
      sorted (map fst (memtable s)) \<and>
      (\<forall>e\<in>set (memtable s). page_id_of env (fst e) < num_pages env))"

text \<open>
  The spec's words (section 4.H and the glossary): a page is targeted when a memtable
  entry belongs to it; it is deferred in a cycle when it is targeted and the test of
  line 110 fails for it. \<open>deferred_throughout\<close> runs consecutive flush cycles from a
  state, with any requests added between one cycle and the next, and says that page
  \<open>p\<close> is deferred in every one of them.
\<close>

definition targeted :: "sim_env \<Rightarrow> sim_state \<Rightarrow> nat \<Rightarrow> bool" where
  "targeted env s p = (\<exists>e\<in>set (memtable s). page_id_of env (fst e) = p)"

definition deferred :: "sim_env \<Rightarrow> sim_state \<Rightarrow> nat \<Rightarrow> bool" where
  "deferred env s p = (p < num_pages env \<and> targeted env s p \<and> \<not> should_flush env s p)"

fun deferred_throughout :: "sim_env \<Rightarrow> nat \<Rightarrow> sim_state \<Rightarrow> Request list list \<Rightarrow> bool" where
  "deferred_throughout env p s [] = True"
| "deferred_throughout env p s (reqs # rest) =
     (deferred env s p \<and>
      (case flush_cycle env s of
         Inl f \<Rightarrow> False
       | Inr s1 \<Rightarrow>
           (case add_requests env s1 reqs of
              Inl f \<Rightarrow> False
            | Inr s2 \<Rightarrow> deferred_throughout env p s2 rest)))"

text \<open>
  Scenario S3 of the spec: \<open>ioThreshold = 3\<close>, \<open>maxDeferrals = 2\<close>, two pages.
\<close>

definition env3 :: sim_env where
  "env3 = \<lparr> io_threshold = 3, max_deferrals = 2, memtable_flush_threshold = 1, num_pages = 2,
            page_id_of = (\<lambda>k. if k < 100 then 0 else 1),
            ApproximateMemoryUsage = length \<rparr>"

text \<open>Auxiliary notions for the proofs about the two loops.\<close>

definition add_entry :: "Key \<times> string \<times> EntryType \<Rightarrow> MemTable \<Rightarrow> MemTable" where
  "add_entry e mt = MemTable_Add mt (fst e) (fst (snd e)) (snd (snd e))"

definition flushed_upto :: "nat \<Rightarrow> sim_state \<Rightarrow> sim_state \<Rightarrow> bool" where
  "flushed_upto n s s' =
     (length (memtable_entries_per_page s') = length (memtable_entries_per_page s) \<and>
      length (page_deferral_count s') = length (page_deferral_count s) \<and>
      length (flushed_this_time s') = length (flushed_this_time s) \<and>
      memtable s' = memtable s \<and> backup_memtable s' = backup_memtable s \<and>
      (\<forall>p < length (page_deferral_count s).
         page_deferral_count s' ! p =
           (if p < n then (if flushed_this_time s ! p then 0 else page_deferral_count s ! p + 1)
            else page_deferral_count s ! p)) \<and>
      (\<forall>p < length (memtable_entries_per_page s).
         memtable_entries_per_page s' ! p =
           (if p < n \<and> flushed_this_time s ! p then 0 else memtable_entries_per_page s ! p)) \<and>
      (\<forall>p < length (flushed_this_time s).
         flushed_this_time s' ! p = (if p < n then False else flushed_this_time s ! p)))"

definition state3 :: sim_state where
  "state3 = \<lparr> memtable = [(5, ''a'', kWrite), (105, ''b'', kWrite), (106, ''c'', kWrite),
                           (107, ''d'', kDelete)],
              backup_memtable = [],
              memtable_entries_per_page = [1, 3], page_deferral_count = [0, 0],
              flushed_this_time = [False, False],
              num_flushes = 0, num_ios = 0, num_reqs = 4, num_inserts = 4 \<rparr>"

definition state1 :: sim_state where
  "state1 = \<lparr> memtable = [(5, ''a'', kWrite)], backup_memtable = [],
              memtable_entries_per_page = [1, 0], page_deferral_count = [0, 0],
              flushed_this_time = [False, False],
              num_flushes = 0, num_ios = 0, num_reqs = 1, num_inserts = 1 \<rparr>"

section \<open>The range scan (DBImpl::GetRange)\<close>

text \<open>
  The types \<^verbatim>\<open>GetRange\<close> works on are declared in headers that are not among the
  sources. Modelled from the spec (sections 3 and 6): a page holds its lower boundary key
  and a sorted run of records; a buffer frame holds a page; an overflow chain is the
  vector of the frames of a base page and its overflow pages, and a null chain is
  \<open>None\<close>; a \<^verbatim>\<open>PhysicalPageId\<close> is \<open>Some\<close> number when \<^verbatim>\<open>IsValid()\<close> and \<open>None\<close>
  otherwise; \<^verbatim>\<open>Status\<close> has the kinds of section 7.
\<close>

record Page =
  lower_boundary :: Key
  records :: "(Key \<times> string) list"

record BufferFrame =
  frame_id :: nat
  GetPage :: Page

datatype Status = OK | NotFound | IoError | Corruption | InvalidArgument



text \<open>
  \<^verbatim>\<open>results_out\<close> is used as a \<^verbatim>\<open>std::vector\<close> of records (\<^verbatim>\<open>clear\<close>, \<^verbatim>\<open>reserve\<close>,
  \<^verbatim>\<open>size\<close>, \<^verbatim>\<open>emplace_back\<close>): its elements and its capacity. \<^verbatim>\<open>num_records\<close> is a
  \<^verbatim>\<open>size_t\<close>, a 64-bit word. \<^verbatim>\<open>reserve(n)\<close> throws \<^verbatim>\<open>std::length_error\<close> when \<open>n\<close>
  exceeds \<^verbatim>\<open>max_size()\<close>; otherwise it does nothing when the capacity is already \<open>n\<close>
  or more, and else asks the allocator for storage, which throws \<^verbatim>\<open>std::bad_alloc\<close>
  when it has none; \<open>reserve\<close> gives the exception, if there is one. \<^verbatim>\<open>max_size()\<close> and
  the allocator belong to the platform and are parameters. \<^verbatim>\<open>clear\<close> removes the
  elements and keeps the capacity. After \<^verbatim>\<open>reserve(num_records)\<close> the loop appends at
  most \<open>num_records\<close> elements, so \<^verbatim>\<open>emplace_back\<close> does not reallocate; copying a key
  and a value into the new element is taken to succeed.
\<close>

record RecordBatch =
  items :: "(Key \<times> string) list"
  capacity :: "64 word"

record allocator =
  max_size :: "64 word"
  allocate :: "64 word \<Rightarrow> bool"

definition clear :: "RecordBatch \<Rightarrow> RecordBatch" where
  "clear batch = batch\<lparr>items := []\<rparr>"

definition reserve :: "allocator \<Rightarrow> RecordBatch \<Rightarrow> 64 word \<Rightarrow> fault option" where
  "reserve al batch n =
     (if max_size al < n then Some Length_Error
      else if n \<le> capacity batch then None
      else if allocate al n then None
      else Some Bad_Alloc)"







text \<open>Lines 9--10 do not throw.\<close>

abbreviation reserved :: "allocator \<Rightarrow> RecordBatch \<Rightarrow> 64 word \<Rightarrow> bool" where
  "reserved al batch n \<equiv> reserve al (clear batch) n = None"











text \<open>
  Modelled from the spec: a database that no thread writes or reorganizes during the
  scan. It is the list of its overflow chains in key order. The model maps a key to the
  chain with the greatest lower boundary at or below the key (the first chain for a
  smaller key, and an invalid id when there are no pages); \<^verbatim>\<open>KeyToNextPageId\<close> gives the
  first chain with a strictly greater lower boundary, or an invalid id. The world is the
  number of attempts to fix a chain that are still refused (section 4.B: \<open>Fix\<close> may
  return none, and the caller retries via the model): in world \<open>0\<close> the database is
  quiescent and fixing a chain by the id of its base page succeeds at the first attempt.
  \<open>db_ok\<close> is the layout of sections 3 and 6: chains are not empty, every page is
  sorted, the records of a chain lie between its lower boundary and the next chain's,
  lower boundaries ascend and base pages have different ids. Section 4.D lets the same
  key be in two pages of a chain (the overflow page holding the newer write);
  \<open>no_duplicates\<close> says that no chain holds a key twice.
\<close>

definition chain_lower :: "BufferFrame list \<Rightarrow> Key" where
  "chain_lower c = lower_boundary (GetPage (hd c))"


definition chain_records :: "BufferFrame list \<Rightarrow> (Key \<times> string) list" where
  "chain_records c = concat (map (\<lambda>bf. records (GetPage bf)) c)"




definition chain_ok :: "BufferFrame list \<Rightarrow> bool" where
  "chain_ok c =
     (c \<noteq> [] \<and>
      (\<forall>bf\<in>set c. sorted (map fst (records (GetPage bf)))) \<and>
      (\<forall>r\<in>set (chain_records c). chain_lower c \<le> fst r))"

fun chains_ok :: "BufferFrame list list \<Rightarrow> bool" where
  "chains_ok [] = True"
| "chains_ok [c] = chain_ok c"
| "chains_ok (c # c' # cs) =
     (chain_ok c \<and> chain_lower c < chain_lower c' \<and>
      (\<forall>r\<in>set (chain_records c). fst r < chain_lower c') \<and>
      chains_ok (c' # cs))"





text \<open>
  For the examples: a platform whose vectors hold at most \<open>2^58 - 1\<close> records and whose
  allocator supplies storage for up to \<open>2^20\<close> of them; a batch that is empty and one
  that holds a record of an earlier call; and scenario S4 of the spec on the database
  above. In S4 the first chain has been read when a reorganization renumbers the next
  page: the model still gives its old id 9, the fix of page 9 is refused, and the model,
  asked again, answers \<open>requery\<close>: the new id 2 in S4, an invalid id if the pages were
  gone, and the old id again if the model never caught up.
\<close>

definition platform :: allocator where
  "platform = \<lparr> max_size = 0x3FFFFFFFFFFFFFF, allocate = (\<lambda>n. n \<le> 0x100000) \<rparr>"

definition empty_batch :: RecordBatch where
  "empty_batch = \<lparr> items = [], capacity = 0 \<rparr>"

definition used_batch :: RecordBatch where
  "used_batch = \<lparr> items = [(1, ''x'')], capacity = 1 \<rparr>"

















section \<open>Properties of the segment index\<close>

lemma takeWhile_le_iff:
  "sorted_wrt (<) (map fst idx) \<Longrightarrow> i < length idx \<Longrightarrow>
     (i < length (takeWhile (\<lambda>e. fst e \<le> (k::Key)) idx)) = (fst (idx ! i) \<le> k)"
proof (induction idx arbitrary: i)
  case Nil
  then show ?case by simp
next
  case (Cons a idx)
  show ?case
  proof (cases i)
    case 0
    then show ?thesis by simp
  next
    case (Suc j)
    with Cons.prems have j: "j < length idx" and lt: "fst a < fst (idx ! j)"
      by auto
    from Cons.prems have "sorted_wrt (<) (map fst idx)" by simp
    from Cons.IH [OF this j] lt Suc show ?thesis by auto
  qed
qed

lemma upper_bound_iff:
  "index_ok idx \<Longrightarrow> i < length idx \<Longrightarrow> (i < upper_bound idx k) = (fst (idx ! i) \<le> k)"
  by (simp add: index_ok_def upper_bound_def takeWhile_le_iff)

lemma upper_bound_le: "upper_bound idx k \<le> length idx"
  by (simp add: upper_bound_def length_takeWhile_le)

lemma filter_upt_single:
  "j < n \<Longrightarrow> (\<And>i. i < n \<Longrightarrow> P i = (i = j)) \<Longrightarrow> filter P [0..<n] = [j]"
proof (induction n)
  case 0
  then show ?case by simp
next
  case (Suc n)
  show ?case
  proof (cases "j = n")
    case True
    have "filter P [0..<n] = []"
      using Suc.prems(2) True by (auto simp: filter_empty_conv)
    moreover have "P n" using Suc.prems(2) [of n] True by simp
    ultimately show ?thesis using True by simp
  next
    case False
    with Suc.prems have "j < n" by simp
    moreover have "\<not> P n" using Suc.prems(2) [of n] False by simp
    ultimately show ?thesis using Suc by simp
  qed
qed

lemma Key_max_top: "(k::Key) \<le> Key_max"
  by (simp add: Key_max_def)

lemma in_range_iff:
  assumes ok: "index_ok idx" and i: "i < length idx"
  shows "in_range (IndexIteratorToEntry idx i) K =
           (K \<noteq> Key_max \<and> 0 < upper_bound idx K \<and> i = upper_bound idx K - 1)"
proof (cases "Suc i = length idx")
  case True
  have "K < Key_max \<longleftrightarrow> K \<noteq> Key_max"
    using Key_max_top [of K] by (auto simp: less_le)
  moreover have "(fst (idx ! i) \<le> K) = (i < upper_bound idx K)"
    using upper_bound_iff [OF ok i] by simp
  moreover have "upper_bound idx K \<le> Suc i"
    using upper_bound_le [of idx K] True by simp
  ultimately show ?thesis
    using True by (auto simp: in_range_def IndexIteratorToEntry_def)
next
  case False
  with i have si: "Suc i < length idx" by simp
  have a: "(fst (idx ! i) \<le> K) = (i < upper_bound idx K)"
    using upper_bound_iff [OF ok i] by simp
  have b: "(K < fst (idx ! Suc i)) = (\<not> Suc i < upper_bound idx K)"
    using upper_bound_iff [OF ok si] by (simp add: not_le)
  have c: "K < fst (idx ! Suc i) \<Longrightarrow> K \<noteq> Key_max"
    using Key_max_top [of "fst (idx ! Suc i)"] by auto
  show ?thesis
    using False a b c by (auto simp: in_range_def IndexIteratorToEntry_def)
qed

lemma upper_bound_pos:
  "idx \<noteq> [] \<Longrightarrow> (0 < upper_bound idx K) = (fst (hd idx) \<le> K)"
  by (cases idx) (simp_all add: upper_bound_def)

lemma covering_eq:
  assumes ok: "index_ok idx" and ne: "idx \<noteq> []"
  shows "covering idx K =
     (if fst (hd idx) \<le> K \<and> K \<noteq> Key_max then [SegmentForKeyImpl idx K] else [])"
proof (cases "fst (hd idx) \<le> K \<and> K \<noteq> Key_max")
  case True
  then have pos: "0 < upper_bound idx K" using upper_bound_pos [OF ne] by simp
  have j: "upper_bound idx K - 1 < length idx"
    using pos upper_bound_le [of idx K] by simp
  have "filter (\<lambda>i. in_range (IndexIteratorToEntry idx i) K) [0..<length idx]
          = [upper_bound idx K - 1]"
    using j
  proof (rule filter_upt_single)
    fix i assume "i < length idx"
    from in_range_iff [OF ok this] True pos
    show "in_range (IndexIteratorToEntry idx i) K = (i = upper_bound idx K - 1)" by simp
  qed
  with True pos show ?thesis
    by (simp add: covering_def SegmentForKeyImpl_def)
next
  case False
  have "\<forall>i\<in>set [0..<length idx]. \<not> in_range (IndexIteratorToEntry idx i) K"
    using in_range_iff [OF ok] False upper_bound_pos [OF ne] by auto
  then have "covering idx K = []"
    unfolding covering_def by (simp only: filter_False)
  with False show ?thesis by simp
qed

lemma index_ok_idx2: "index_ok idx2"
  by (simp add: index_ok_def idx2_def)

text \<open>
  Claim C2 (range cover), as amended. In a non-empty index the positions whose entry
  satisfies \<open>lower \<le> K < upper\<close> are exactly: the position \<^verbatim>\<open>SegmentForKeyImpl\<close>
  returns, when \<open>K\<close> is at least the smallest lower bound and is not the largest key
  value; none otherwise. So exactly one entry contains \<open>K\<close> if and only if
  \<open>smallest lower \<le> K < Key_max\<close>: the last entry's upper bound is the largest key
  value, which the half-open test excludes, not an infinity.
\<close>

theorem range_cover:
  assumes "index_ok idx" and "idx \<noteq> []"
  shows "covering idx K =
           (if fst (hd idx) \<le> K \<and> K \<noteq> Key_max then [SegmentForKeyImpl idx K] else [])
         \<and> (length (covering idx K) = 1) = (fst (hd idx) \<le> K \<and> K \<noteq> Key_max)"
  using covering_eq [OF assms] by simp

theorem range_cover_witness:
  "index_ok idx2 \<and> idx2 \<noteq> [] \<and> covering idx2 15 = [0] \<and> covering idx2 20 = [1]
     \<and> length (covering idx2 15) = 1"
  using range_cover [OF index_ok_idx2, of 15] range_cover [OF index_ok_idx2, of 20] index_ok_idx2
  by (simp add: idx2_def SegmentForKeyImpl_def upper_bound_def Key_max_def)

text \<open>
  The claim as stated fails twice on the index holding the single lower bound 10: no
  entry contains the key 5, below the smallest lower bound, and none contains the
  largest key value.
\<close>

theorem range_cover_counterexample:
  "covering [(10, \<lparr>seg_id = 1, page_count = 4, has_overflow = False\<rparr>)] 5 = [] \<and>
   covering [(10, \<lparr>seg_id = 1, page_count = 4, has_overflow = False\<rparr>)] Key_max = []"
  by (simp add: covering_def in_range_def IndexIteratorToEntry_def Key_max_def)

lemma predecessor_lookup:
  assumes ok: "index_ok idx" and ne: "idx \<noteq> []" and ge: "fst (hd idx) \<le> K"
  shows "SegmentForKey idx K = Inr (IndexIteratorToEntry idx (upper_bound idx K - 1))"
    and "is_predecessor_of idx K (IndexIteratorToEntry idx (upper_bound idx K - 1))"
proof -
  let ?j = "upper_bound idx K - 1"
  have pos: "0 < upper_bound idx K" using upper_bound_pos [OF ne] ge by simp
  have j: "?j < length idx" using pos upper_bound_le [of idx K] by simp
  show "SegmentForKey idx K = Inr (IndexIteratorToEntry idx ?j)"
    using pos j by (simp add: SegmentForKey_def SegmentForKeyImpl_def)
  have mem: "IndexIteratorToEntry idx ?j \<in> set (entries idx)"
    using j by (simp add: entries_def)
  have le: "fst (idx ! ?j) \<le> K"
    using upper_bound_iff [OF ok j, of K] pos by simp
  have greatest: "fst p \<le> fst (idx ! ?j)" if p: "p \<in> set idx" and pk: "fst p \<le> K" for p
  proof -
    from p obtain i where i: "i < length idx" and ip: "idx ! i = p"
      by (auto simp: in_set_conv_nth)
    with pk upper_bound_iff [OF ok i, of K] have "i \<le> ?j" by simp
    then have "i = ?j \<or> i < ?j" by auto
    then show ?thesis
    proof
      assume "i = ?j" with ip show ?thesis by simp
    next
      assume "i < ?j"
      with ok j have "fst (idx ! i) < fst (idx ! ?j)"
        by (simp add: index_ok_def sorted_wrt_iff_nth_less)
      with ip show ?thesis by simp
    qed
  qed
  show "is_predecessor_of idx K (IndexIteratorToEntry idx ?j)"
    using mem le greatest by (simp add: is_predecessor_of_def IndexIteratorToEntry_def)
qed

text \<open>
  Claim C3 (predecessor lookup), as amended. For every key \<open>K\<close> that is at least the
  smallest lower bound of a non-empty index, \<^verbatim>\<open>SegmentForKey\<close> returns an entry of the
  index, with that entry's upper bound and \<^verbatim>\<open>SegmentInfo\<close>, whose lower bound is the
  greatest one that is at most \<open>K\<close>.
\<close>

theorem SegmentForKey_predecessor:
  assumes "index_ok idx" and "idx \<noteq> []" and "fst (hd idx) \<le> K"
  shows "\<exists>e. SegmentForKey idx K = Inr e \<and> is_predecessor_of idx K e"
  using predecessor_lookup [OF assms] by blast

theorem SegmentForKey_predecessor_witness:
  "index_ok idx2 \<and> idx2 \<noteq> [] \<and> fst (hd idx2) \<le> 15 \<and>
   (\<exists>e. SegmentForKey idx2 15 = Inr e \<and> is_predecessor_of idx2 15 e)"
proof -
  have h: "idx2 \<noteq> []" "fst (hd idx2) \<le> 15" by (simp_all add: idx2_def)
  show ?thesis
    using SegmentForKey_predecessor [OF index_ok_idx2 h] index_ok_idx2 h by simp
qed

text \<open>
  The claim as stated fails for a key below the smallest lower bound: on the index
  holding the single lower bound 10 the lookup of 5 returns the entry with lower bound
  10, which is not at most 5.
\<close>

theorem SegmentForKey_predecessor_counterexample:
  "SegmentForKey [(10, \<lparr>seg_id = 1, page_count = 4, has_overflow = False\<rparr>)] 5
     = Inr \<lparr>lower = 10, upper = Key_max, sinfo = \<lparr>seg_id = 1, page_count = 4, has_overflow = False\<rparr>\<rparr>
   \<and> \<not> is_predecessor_of [(10, \<lparr>seg_id = 1, page_count = 4, has_overflow = False\<rparr>)] 5
     \<lparr>lower = 10, upper = Key_max, sinfo = \<lparr>seg_id = 1, page_count = 4, has_overflow = False\<rparr>\<rparr>"
  by (simp add: SegmentForKey_def SegmentForKeyImpl_def upper_bound_def IndexIteratorToEntry_def
      is_predecessor_of_def)

text \<open>
  Claim C10. For every key \<open>K\<close> strictly below every lower bound of a non-empty index,
  \<^verbatim>\<open>SegmentForKeyImpl\<close> returns the first position; the entry there has the smallest
  lower bound of the index, which is strictly greater than \<open>K\<close>. \<^verbatim>\<open>SegmentForKey\<close>
  returns that entry, \<^verbatim>\<open>GetSegmentBoundsFor\<close> its bounds, and \<^verbatim>\<open>SetSegmentOverflow\<close>
  sets the flag of that entry; none of them fails.
\<close>

theorem key_below_first:
  assumes ok: "index_ok idx" and ne: "idx \<noteq> []" and below: "\<forall>e\<in>set idx. K < fst e"
  shows "SegmentForKeyImpl idx K = 0
    \<and> SegmentForKey idx K = Inr (IndexIteratorToEntry idx 0)
    \<and> lower (IndexIteratorToEntry idx 0) = fst (hd idx)
    \<and> K < lower (IndexIteratorToEntry idx 0)
    \<and> (\<forall>e\<in>set idx. lower (IndexIteratorToEntry idx 0) \<le> fst e)
    \<and> GetSegmentBoundsFor idx K = Inr (fst (hd idx), upper (IndexIteratorToEntry idx 0))
    \<and> SetSegmentOverflow idx K b =
           Inr (idx[0 := (fst (hd idx), (snd (hd idx))\<lparr>has_overflow := b\<rparr>)])"
proof -
  from ne obtain a rest where idx: "idx = a # rest" by (cases idx) auto
  with below have lt: "K < fst a" by simp
  then have ub: "upper_bound idx K = 0" by (simp add: upper_bound_def idx not_le)
  then have impl: "SegmentForKeyImpl idx K = 0" by (simp add: SegmentForKeyImpl_def)
  have sfk: "SegmentForKey idx K = Inr (IndexIteratorToEntry idx 0)"
    using impl ne by (simp add: SegmentForKey_def)
  have low: "lower (IndexIteratorToEntry idx 0) = fst (hd idx)"
    by (simp add: IndexIteratorToEntry_def idx)
  have klt: "K < lower (IndexIteratorToEntry idx 0)" using low lt idx by simp
  have least: "\<forall>e\<in>set idx. lower (IndexIteratorToEntry idx 0) \<le> fst e"
    using ok by (auto simp: index_ok_def idx IndexIteratorToEntry_def)
  have bounds: "GetSegmentBoundsFor idx K = Inr (fst (hd idx), upper (IndexIteratorToEntry idx 0))"
    using impl by (simp add: GetSegmentBoundsFor_def IndexIteratorToEntry_def idx)
  have setov: "SetSegmentOverflow idx K b =
           Inr (idx[0 := (fst (hd idx), (snd (hd idx))\<lparr>has_overflow := b\<rparr>)])"
    using impl by (simp add: SetSegmentOverflow_def idx)
  from impl sfk low klt least bounds setov show ?thesis by blast
qed

theorem key_below_first_witness:
  "index_ok idx2 \<and> idx2 \<noteq> [] \<and> SegmentForKeyImpl idx2 5 = 0 \<and>
   SegmentForKey idx2 5 = Inr \<lparr>lower = 10, upper = 20,
      sinfo = \<lparr>seg_id = 1, page_count = 4, has_overflow = False\<rparr>\<rparr> \<and>
   GetSegmentBoundsFor idx2 5 = Inr (10, 20)"
proof -
  have h: "idx2 \<noteq> []" "\<forall>e\<in>set idx2. 5 < fst e" by (simp_all add: idx2_def)
  show ?thesis
    using key_below_first [OF index_ok_idx2 h] index_ok_idx2 h(1)
    by (simp add: idx2_def IndexIteratorToEntry_def)
qed

section \<open>Properties of FindAndLockRewriteRegion\<close>

lemma acquire_reorg_free:
  "lm i = Unlocked \<Longrightarrow> acquire_reorg lm i = Some (lm(i := Reorg_Locked))"
  by (subst acquire_reorg.simps) (simp add: TryAcquireSegmentLock_def)

lemma acquire_reorg_Some:
  "acquire_reorg lm i = Some lm' \<Longrightarrow> lm i = Unlocked \<and> lm' = lm(i := Reorg_Locked)"
proof (induction rule: acquire_reorg.raw_induct[rotated 1, consumes 1])
  case (1 acq lm i lm')
  then show ?case
    by (auto simp: TryAcquireSegmentLock_def split: option.splits if_splits elim: grant.elims)
qed

lemma walk_length_le: "walk_length n segs \<le> n" "walk_length n segs \<le> length segs"
  unfolding walk_length_def
  by (rule order_trans [OF length_takeWhile_le], simp)+

lemma walk_length_Cons:
  "walk_length (Suc n) (x # xs) = (if has_overflow (snd x) then Suc (walk_length n xs) else 0)"
  by (simp add: walk_length_def)

lemma walk_length_Nil: "walk_length n [] = 0"
  by (simp add: walk_length_def)

lemma rev_take_Suc:
  "p < length xs \<Longrightarrow> rev (take (Suc p) xs) = xs ! p # rev (take p xs)"
  by (simp add: take_Suc_conv_app_nth)

lemma scan_backward_eq:
  "0 < p \<Longrightarrow> p \<le> length idx \<Longrightarrow>
   scan_backward idx p n segs =
     segs @ map (IndexIteratorToEntry idx) (rev [p - walk_length n (rev (take p idx)) ..< p])"
proof (induction n arbitrary: p segs)
  case 0
  then show ?case by (simp add: walk_length_def)
next
  case (Suc n)
  from Suc.prems obtain q where p: "p = Suc q" and q: "q < length idx"
    by (cases p) auto
  have rv: "rev (take (Suc q) idx) = idx ! q # rev (take q idx)"
    using q by (rule rev_take_Suc)
  show ?case
  proof (cases "has_overflow (snd (idx ! q))")
    case False
    then show ?thesis by (simp add: p rv walk_length_Cons)
  next
    case ov: True
    show ?thesis
    proof (cases "q = 0")
      case True
      then show ?thesis using ov rv by (simp add: p walk_length_Cons walk_length_Nil)
    next
      case False
      then have q0: "0 < q" by simp
      let ?b = "walk_length n (rev (take q idx))"
      have bq: "?b \<le> q" using walk_length_le(2) [of n "rev (take q idx)"] q by simp
      have IH: "scan_backward idx q n (segs @ [IndexIteratorToEntry idx q]) =
                 (segs @ [IndexIteratorToEntry idx q]) @
                   map (IndexIteratorToEntry idx) (rev [q - ?b ..< q])"
        using Suc.IH [OF q0] q by simp
      have "[Suc q - Suc ?b ..< Suc q] = [q - ?b ..< q] @ [q]"
        using bq by simp
      then show ?thesis
        using ov False IH by (simp add: p rv walk_length_Cons del: upt_Suc)
    qed
  qed
qed

lemma scan_forward_eq:
  "q \<le> length idx \<Longrightarrow>
   scan_forward idx q n segs =
     segs @ map (IndexIteratorToEntry idx) [q ..< q + walk_length n (drop q idx)]"
proof (induction n arbitrary: q segs)
  case 0
  then show ?case by (simp add: walk_length_def)
next
  case (Suc n)
  show ?case
  proof (cases "q = length idx")
    case True
    then show ?thesis by (simp add: walk_length_Nil)
  next
    case False
    with Suc.prems have q: "q < length idx" by simp
    have dr: "drop q idx = idx ! q # drop (Suc q) idx"
      using q by (simp add: Cons_nth_drop_Suc)
    show ?thesis
    proof (cases "has_overflow (snd (idx ! q))")
      case False
      then show ?thesis using q by (simp add: dr walk_length_Cons)
    next
      case True
      have "scan_forward idx (Suc q) n (segs @ [IndexIteratorToEntry idx q]) =
              (segs @ [IndexIteratorToEntry idx q]) @
                map (IndexIteratorToEntry idx)
                  [Suc q ..< Suc q + walk_length n (drop (Suc q) idx)]"
        using Suc.IH [of "Suc q"] q by simp
      moreover have "[q ..< q + Suc (walk_length n (drop (Suc q) idx))] =
                       q # [Suc q ..< Suc q + walk_length n (drop (Suc q) idx)]"
        by (simp add: upt_rec [of q])
      ultimately show ?thesis
        using True q by (simp add: dr walk_length_Cons del: upt_Suc)
    qed
  qed
qed

lemma lower_bound_at:
  assumes ok: "index_ok idx" and i: "i < length idx"
  shows "lower_bound idx (fst (idx ! i)) = i"
proof -
  have "takeWhile (\<lambda>e. fst e < fst (idx ! i)) idx = take i idx"
  proof (rule takeWhile_eq_take_P_nth)
    fix j assume "j < i" "j < length idx"
    with ok i show "fst (idx ! j) < fst (idx ! i)"
      by (simp add: index_ok_def sorted_wrt_iff_nth_less)
  next
    show "\<not> fst (idx ! i) < fst (idx ! i)" by simp
  qed
  with i show ?thesis by (simp add: lower_bound_def)
qed

lemma collect_region_eq:
  assumes ok: "index_ok idx" and i: "i < length idx"
  shows "collect_region idx (fst (idx ! i)) r =
     Inr (IndexIteratorToEntry idx i
          # map (IndexIteratorToEntry idx) (rev [i - walk_length (unat r) (rev (take i idx)) ..< i])
          @ map (IndexIteratorToEntry idx)
              [Suc i ..< Suc i + walk_length (unat r) (drop (Suc i) idx)])"
proof -
  have lb: "lower_bound idx (fst (idx ! i)) = i" by (rule lower_bound_at [OF ok i])
  have fw: "\<And>segs. scan_forward idx (Suc i) (unat r) segs =
              segs @ map (IndexIteratorToEntry idx)
                       [Suc i ..< Suc i + walk_length (unat r) (drop (Suc i) idx)]"
    using i by (intro scan_forward_eq) simp
  show ?thesis
  proof (cases "i = 0")
    case True
    then show ?thesis using lb i fw by (simp add: collect_region_def)
  next
    case False
    then have "scan_backward idx i (unat r) [IndexIteratorToEntry idx i] =
       [IndexIteratorToEntry idx i] @
        map (IndexIteratorToEntry idx) (rev [i - walk_length (unat r) (rev (take i idx)) ..< i])"
      using i by (intro scan_backward_eq) simp_all
    then show ?thesis using lb i fw False by (simp add: collect_region_def)
  qed
qed

lemma sort_key_unique:
  fixes f :: "'a \<Rightarrow> 'b::linorder"
  assumes ms: "mset ys = mset xs" and st: "sorted_wrt (<) (map f ys)"
  shows "sort_key f xs = ys"
proof -
  have srt: "sorted (map f ys)" and dst: "distinct (map f ys)"
    using st by (simp_all add: strict_sorted_iff)
  have "mset (map f ys) = mset (map f xs)" using ms by (metis mset_map)
  then have "sort (map f xs) = map f ys"
    using srt by (intro properties_for_sort) simp_all
  moreover have "sort (map f xs) = map f (sort_key f xs)"
    by (intro properties_for_sort) simp_all
  ultimately have eq: "map f (sort_key f xs) = map f ys" by simp
  have sets: "set (sort_key f xs) = set ys"
    using ms by (metis mset_eq_setD set_sort)
  have "inj_on f (set ys)" using dst by (simp add: distinct_map)
  then have "inj_on f (set (sort_key f xs) \<union> set ys)" using sets by simp
  with eq show ?thesis by (simp add: inj_on_map_eq_map)
qed

lemma lowers_of_entries:
  "c \<le> length idx \<Longrightarrow>
   map lower (map (IndexIteratorToEntry idx) [a..<c]) = map fst (take (c - a) (drop a idx))"
  by (rule nth_equalityI) (simp_all add: IndexIteratorToEntry_def)

lemma sorted_lowers:
  assumes ok: "index_ok idx" and c: "c \<le> length idx"
  shows "sorted_wrt (<) (map lower (map (IndexIteratorToEntry idx) [a..<c]))"
proof -
  have "sorted_wrt (<) (map fst (take (c - a) (drop a idx)))"
    using ok unfolding index_ok_def
    by (simp add: take_map[symmetric] drop_map[symmetric] sorted_wrt_take sorted_wrt_drop)
  then show ?thesis using lowers_of_entries [OF c] by simp
qed

lemma collected_sorted:
  assumes ok: "index_ok idx" and i: "i < length idx"
    and b: "b \<le> i" and f: "i + f < length idx"
  shows "sort_key lower
           (IndexIteratorToEntry idx i # map (IndexIteratorToEntry idx) (rev [i - b ..< i])
              @ map (IndexIteratorToEntry idx) [Suc i ..< Suc i + f])
         = map (IndexIteratorToEntry idx) [i - b ..< Suc (i + f)]"
proof (rule sort_key_unique)
  have "[i - b ..< i + Suc f] = [i - b ..< i] @ [i ..< i + Suc f]"
    by (rule upt_add_eq_append) simp
  moreover have "[i ..< i + Suc f] = i # [Suc i ..< Suc i + f]"
    by (simp add: upt_rec [of i])
  ultimately have "[i - b ..< Suc (i + f)] = [i - b ..< i] @ i # [Suc i ..< Suc i + f]"
    by simp
  then show "mset (map (IndexIteratorToEntry idx) [i - b ..< Suc (i + f)]) =
        mset (IndexIteratorToEntry idx i # map (IndexIteratorToEntry idx) (rev [i - b ..< i])
              @ map (IndexIteratorToEntry idx) [Suc i ..< Suc i + f])"
    by simp
  show "sorted_wrt (<) (map lower (map (IndexIteratorToEntry idx) [i - b ..< Suc (i + f)]))"
    using f by (intro sorted_lowers [OF ok]) simp
qed

lemma acquire_reorg_iff:
  "(acquire_reorg lm i = Some lm') = (lm i = Unlocked \<and> lm' = lm(i := Reorg_Locked))"
  using acquire_reorg_Some [of lm i lm'] acquire_reorg_free [of lm i] by auto

lemma acquire_in_order_iff:
  "(acquire_in_order lm acq segs = Some (lm', acq')) =
     (distinct (segment_ids segs)
      \<and> (\<forall>i\<in>set (segment_ids segs). lm i = Unlocked)
      \<and> lm' = (\<lambda>i. if i \<in> set (segment_ids segs) then Reorg_Locked else lm i)
      \<and> acq' = acq @ segment_ids segs)"
proof (induction segs arbitrary: lm acq)
  case Nil
  then show ?case by (auto simp: segment_ids_def)
next
  case (Cons seg segs)
  let ?i = "seg_id (sinfo seg)"
  let ?ids = "segment_ids segs"
  have ids: "segment_ids (seg # segs) = ?i # ?ids" by (simp add: segment_ids_def)
  show ?case
  proof (cases "acquire_reorg lm ?i")
    case None
    then have "lm ?i \<noteq> Unlocked" using acquire_reorg_free [of lm ?i] by auto
    with None show ?thesis by (simp add: ids)
  next
    case (Some lm1)
    then have free: "lm ?i = Unlocked" and lm1: "lm1 = lm(?i := Reorg_Locked)"
      using acquire_reorg_iff [of lm ?i lm1] by simp_all
    have a: "(\<forall>j\<in>set ?ids. lm1 j = Unlocked) = (?i \<notin> set ?ids \<and> (\<forall>j\<in>set ?ids. lm j = Unlocked))"
      unfolding lm1 by (metis fun_upd_apply lock_state.distinct(5))
    have b: "(\<lambda>j. if j \<in> set ?ids then Reorg_Locked else lm1 j) =
             (\<lambda>j. if j \<in> set (?i # ?ids) then Reorg_Locked else lm j)"
      by (auto simp: lm1 fun_eq_iff)
    have "(acquire_in_order lm acq (seg # segs) = Some (lm', acq')) =
          (acquire_in_order lm1 (acq @ [?i]) segs = Some (lm', acq'))"
      using Some by simp
    also have "\<dots> = (distinct ?ids \<and> (\<forall>j\<in>set ?ids. lm1 j = Unlocked)
        \<and> lm' = (\<lambda>j. if j \<in> set ?ids then Reorg_Locked else lm1 j)
        \<and> acq' = (acq @ [?i]) @ ?ids)"
      by (rule Cons.IH)
    also have "\<dots> = (distinct (?i # ?ids) \<and> (\<forall>j\<in>set (?i # ?ids). lm j = Unlocked)
        \<and> lm' = (\<lambda>j. if j \<in> set (?i # ?ids) then Reorg_Locked else lm j)
        \<and> acq' = acq @ ?i # ?ids)"
      unfolding a b using free by auto
    finally show ?thesis unfolding ids .
  qed
qed

lemma release_all_eq:
  "distinct (segment_ids segs) \<Longrightarrow>
   \<forall>i\<in>set (segment_ids segs). lm i = Reorg_Locked \<Longrightarrow>
   release_all lm segs = (\<lambda>i. if i \<in> set (segment_ids segs) then Unlocked else lm i)"
proof (induction segs arbitrary: lm)
  case Nil
  then show ?case by (simp add: segment_ids_def)
next
  case (Cons seg segs)
  let ?i = "seg_id (sinfo seg)"
  let ?ids = "segment_ids segs"
  let ?lm = "ReleaseSegmentLock lm ?i kReorg"
  have ids: "segment_ids (seg # segs) = ?i # ?ids" by (simp add: segment_ids_def)
  have lm': "?lm = lm(?i := Unlocked)"
    using Cons.prems(2) by (simp add: ReleaseSegmentLock_def ids)
  have notin: "?i \<notin> set ?ids" and d: "distinct ?ids"
    using Cons.prems(1) by (simp_all add: ids)
  have "\<forall>j\<in>set ?ids. ?lm j = Reorg_Locked"
  proof
    fix j assume j: "j \<in> set ?ids"
    with notin have "j \<noteq> ?i" by auto
    with j Cons.prems(2) show "?lm j = Reorg_Locked" by (simp add: lm' ids)
  qed
  from Cons.IH [OF d this]
  have "release_all ?lm segs = (\<lambda>j. if j \<in> set ?ids then Unlocked else ?lm j)" .
  then show ?case by (auto simp: lm' ids fun_eq_iff)
qed

lemma acquire_then_release:
  assumes "acquire_in_order lm acq segs = Some (lm', acq')"
  shows "release_all lm' segs = lm"
proof -
  from assms have d: "distinct (segment_ids segs)"
    and free: "\<forall>i\<in>set (segment_ids segs). lm i = Unlocked"
    and lm': "lm' = (\<lambda>i. if i \<in> set (segment_ids segs) then Reorg_Locked else lm i)"
    by (simp_all add: acquire_in_order_iff)
  have "\<forall>i\<in>set (segment_ids segs). lm' i = Reorg_Locked" by (simp add: lm')
  from release_all_eq [OF d this] free show ?thesis
    by (auto simp: lm' fun_eq_iff)
qed

lemma find_key_le: "find_key idx k \<le> length idx"
  by (simp add: find_key_def Let_def)

lemma revalidate_sound:
  "it \<le> length idx \<Longrightarrow> revalidate idx it segs \<Longrightarrow>
   map lower segs = take (length segs) (drop it (map fst idx))"
proof (induction segs arbitrary: it)
  case Nil
  then show ?case by simp
next
  case (Cons seg segs)
  from Cons.prems have it: "it < length idx" and eq: "fst (idx ! it) = lower seg"
    and rest: "revalidate idx (Suc it) segs"
    by (auto split: if_splits)
  have "drop it (map fst idx) = fst (idx ! it) # drop (Suc it) (map fst idx)"
    using it by (simp add: Cons_nth_drop_Suc [symmetric])
  with Cons.IH [OF _ rest] it eq show ?case by simp
qed

lemma revalidate_complete:
  "(\<And>j. j < length segs \<Longrightarrow> it + j < length idx \<and> fst (idx ! (it + j)) = lower (segs ! j)) \<Longrightarrow>
   revalidate idx it segs"
proof (induction segs arbitrary: it)
  case Nil
  then show ?case by simp
next
  case (Cons seg segs)
  from Cons.prems [of 0] have h: "it < length idx" "fst (idx ! it) = lower seg" by simp_all
  have "revalidate idx (Suc it) segs"
  proof (rule Cons.IH)
    fix j assume "j < length segs"
    with Cons.prems [of "Suc j"]
    show "Suc it + j < length idx \<and> fst (idx ! (Suc it + j)) = lower (segs ! j)" by simp
  qed
  with h show ?case by simp
qed

lemma revalidate_iff_sublist:
  assumes ok: "index_ok idx" and ne: "segs \<noteq> []"
  shows "revalidate idx (find_key idx (lower (hd segs))) segs =
           sublist (map lower segs) (map fst idx)"
proof
  assume "revalidate idx (find_key idx (lower (hd segs))) segs"
  from revalidate_sound [OF find_key_le this]
  have "map lower segs =
          take (length segs) (drop (find_key idx (lower (hd segs))) (map fst idx))" .
  moreover have "sublist (take n (drop m xs)) xs" for n m and xs :: "Key list"
    by (meson sublist_drop sublist_order.order_trans sublist_take)
  ultimately show "sublist (map lower segs) (map fst idx)" by simp
next
  assume "sublist (map lower segs) (map fst idx)"
  then obtain ps ss where split: "map fst idx = ps @ map lower segs @ ss"
    by (auto simp: sublist_def)
  let ?p = "length ps"
  have len: "length idx = ?p + length segs + length ss"
    using arg_cong [OF split, of length] by simp
  have nth: "fst (idx ! (?p + j)) = lower (segs ! j)" if "j < length segs" for j
  proof -
    have "map fst idx ! (?p + j) = (map lower segs @ ss) ! j"
      by (simp add: split)
    with that len show ?thesis by (simp add: nth_append)
  qed
  from ne have p: "?p < length idx" using len by (cases segs) simp_all
  from ne nth [of 0] have "fst (idx ! ?p) = lower (hd segs)"
    by (cases segs) simp_all
  with lower_bound_at [OF ok p] p have "find_key idx (lower (hd segs)) = ?p"
    by (simp add: find_key_def)
  moreover have "revalidate idx ?p segs"
    using nth len by (intro revalidate_complete) simp
  ultimately show "revalidate idx (find_key idx (lower (hd segs))) segs" by simp
qed

lemma scan_backward_appends: "\<exists>ys. scan_backward idx p n segs = segs @ ys"
proof (induction n arbitrary: p segs)
  case 0
  then show ?case by simp
next
  case (Suc n)
  from Suc.IH [of "p - 1" "segs @ [IndexIteratorToEntry idx (p - 1)]"]
  show ?case by (auto simp: Let_def)
qed

lemma scan_forward_appends: "\<exists>ys. scan_forward idx q n segs = segs @ ys"
proof (induction n arbitrary: q segs)
  case 0
  then show ?case by simp
next
  case (Suc n)
  from Suc.IH [of "Suc q" "segs @ [IndexIteratorToEntry idx q]"]
  show ?case by auto
qed

lemma scan_nonempty:
  "segs \<noteq> [] \<Longrightarrow> scan_backward idx p n segs \<noteq> []"
  "segs \<noteq> [] \<Longrightarrow> scan_forward idx q n segs \<noteq> []"
  using scan_backward_appends [of idx p n segs] scan_forward_appends [of idx q n segs]
  by auto

lemma collect_region_nonempty:
  assumes "collect_region idx k r = Inr segs"
  shows "segs \<noteq> []"
proof -
  let ?it = "lower_bound idx k"
  let ?s0 = "[IndexIteratorToEntry idx ?it]"
  let ?s1 = "if ?it \<noteq> 0 then scan_backward idx ?it (unat r) ?s0 else ?s0"
  have "?s1 \<noteq> []" using scan_nonempty(1) [of ?s0] by simp
  then have "scan_forward idx (Suc ?it) (unat r) ?s1 \<noteq> []" by (rule scan_nonempty(2))
  moreover have "segs = scan_forward idx (Suc ?it) (unat r) ?s1"
    using assms by (simp add: collect_region_def Let_def split: if_splits)
  ultimately show ?thesis by simp
qed

lemma sort_key_nonempty: "xs \<noteq> [] \<Longrightarrow> sort_key f xs \<noteq> []"
  by (metis length_0_conv length_sort)

text \<open>
  Claim C4. Whenever \<^verbatim>\<open>FindAndLockRewriteRegion\<close> returns, it has taken the \<open>Reorg\<close>
  locks of exactly the collected segments, and either (a) it returns the non-empty sorted
  vector, whose lower bounds form a run of consecutive keys of the index as read at
  revalidation time, still holding those locks, or (b) it returns the empty vector and
  the lock manager is as it was before the call: every lock it took is released. With a
  well-formed index at revalidation time, (b) happens exactly when the collected lower
  bounds are not consecutive keys of that index. The call does return when the locks of
  the collected segments are free.
\<close>

theorem FindAndLockRewriteRegion_revalidation:
  "(\<forall>reg. FindAndLockRewriteRegion idx idx' lm segment_base search_radius = Some (Inr reg) \<longrightarrow>
      (\<exists>segs. collect_region idx segment_base search_radius = Inr segs
          \<and> acquired reg = segment_ids (sort_key lower segs)
          \<and> (index_ok idx' \<longrightarrow>
               (segments reg = []) = (\<not> sublist (map lower (sort_key lower segs)) (map fst idx')))
          \<and> ((segments reg = sort_key lower segs \<and> segments reg \<noteq> []
                \<and> sublist (map lower (segments reg)) (map fst idx')
                \<and> (\<forall>i\<in>set (acquired reg). lm i = Unlocked \<and> lock_manager reg i = Reorg_Locked))
             \<or> (segments reg = [] \<and> acquired reg \<noteq> [] \<and> lock_manager reg = lm
                \<and> (\<forall>i\<in>set (acquired reg). lock_manager reg i = Unlocked)))))
   \<and> (\<forall>segs. collect_region idx segment_base search_radius = Inr segs
          \<and> distinct (segment_ids segs) \<and> (\<forall>i\<in>set (segment_ids segs). lm i = Unlocked) \<longrightarrow>
        (\<exists>reg. FindAndLockRewriteRegion idx idx' lm segment_base search_radius = Some (Inr reg)))"
proof (intro conjI allI impI)
  fix reg
  assume ret: "FindAndLockRewriteRegion idx idx' lm segment_base search_radius = Some (Inr reg)"
  then obtain segs where col: "collect_region idx segment_base search_radius = Inr segs"
    by (auto simp: FindAndLockRewriteRegion_def split: sum.splits)
  let ?S = "sort_key lower segs"
  have ne: "?S \<noteq> []" using collect_region_nonempty [OF col] by (rule sort_key_nonempty)
  from ret col obtain lm1 acq where acqu: "acquire_in_order lm [] ?S = Some (lm1, acq)"
    by (auto simp: FindAndLockRewriteRegion_def Let_def split: option.splits)
  then have d: "distinct (segment_ids ?S)"
    and free: "\<forall>i\<in>set (segment_ids ?S). lm i = Unlocked"
    and lm1: "lm1 = (\<lambda>i. if i \<in> set (segment_ids ?S) then Reorg_Locked else lm i)"
    and acq: "acq = segment_ids ?S"
    by (simp_all add: acquire_in_order_iff)
  let ?valid = "revalidate idx' (find_key idx' (lower (hd ?S))) ?S"
  have reg: "reg = (if \<not> ?valid
                    then \<lparr>segments = [], lock_manager = release_all lm1 ?S, acquired = acq\<rparr>
                    else \<lparr>segments = ?S, lock_manager = lm1, acquired = acq\<rparr>)"
    using ret col acqu by (simp add: FindAndLockRewriteRegion_def Let_def split: if_splits)
  have rel: "release_all lm1 ?S = lm" using acqu by (rule acquire_then_release)
  have acq_ne: "acq \<noteq> []" using ne by (simp add: acq segment_ids_def)
  have sound: "?valid \<Longrightarrow> sublist (map lower ?S) (map fst idx')"
  proof -
    assume ?valid
    from revalidate_sound [OF find_key_le this]
    have "map lower ?S = take (length ?S) (drop (find_key idx' (lower (hd ?S))) (map fst idx'))" .
    moreover have "sublist (take n (drop m xs)) xs" for n m and xs :: "Key list"
      by (meson sublist_drop sublist_order.order_trans sublist_take)
    ultimately show ?thesis by simp
  qed
  have two: "(segments reg = ?S \<and> segments reg \<noteq> []
                \<and> sublist (map lower (segments reg)) (map fst idx')
                \<and> (\<forall>i\<in>set (acquired reg). lm i = Unlocked \<and> lock_manager reg i = Reorg_Locked))
             \<or> (segments reg = [] \<and> acquired reg \<noteq> [] \<and> lock_manager reg = lm
                \<and> (\<forall>i\<in>set (acquired reg). lock_manager reg i = Unlocked))"
  proof (cases ?valid)
    case True
    with reg have "reg = \<lparr>segments = ?S, lock_manager = lm1, acquired = acq\<rparr>" by simp
    with ne sound [OF True] free show ?thesis by (simp add: acq lm1)
  next
    case False
    with reg rel have "reg = \<lparr>segments = [], lock_manager = lm, acquired = acq\<rparr>" by simp
    with acq_ne free show ?thesis by (simp add: acq)
  qed
  have iff: "index_ok idx' \<longrightarrow> (segments reg = []) = (\<not> sublist (map lower ?S) (map fst idx'))"
  proof
    assume ok: "index_ok idx'"
    from revalidate_iff_sublist [OF ok ne]
    have "?valid = sublist (map lower ?S) (map fst idx')" .
    with reg ne show "(segments reg = []) = (\<not> sublist (map lower ?S) (map fst idx'))"
      by (cases ?valid) simp_all
  qed
  from col acq reg iff two
  show "\<exists>segs. collect_region idx segment_base search_radius = Inr segs
          \<and> acquired reg = segment_ids (sort_key lower segs)
          \<and> (index_ok idx' \<longrightarrow>
               (segments reg = []) = (\<not> sublist (map lower (sort_key lower segs)) (map fst idx')))
          \<and> ((segments reg = sort_key lower segs \<and> segments reg \<noteq> []
                \<and> sublist (map lower (segments reg)) (map fst idx')
                \<and> (\<forall>i\<in>set (acquired reg). lm i = Unlocked \<and> lock_manager reg i = Reorg_Locked))
             \<or> (segments reg = [] \<and> acquired reg \<noteq> [] \<and> lock_manager reg = lm
                \<and> (\<forall>i\<in>set (acquired reg). lock_manager reg i = Unlocked)))"
    by (intro exI [of _ segs]) (simp split: if_splits)
next
  fix segs
  assume h: "collect_region idx segment_base search_radius = Inr segs
          \<and> distinct (segment_ids segs) \<and> (\<forall>i\<in>set (segment_ids segs). lm i = Unlocked)"
  let ?S = "sort_key lower segs"
  have "mset (segment_ids ?S) = mset (segment_ids segs)"
    by (simp add: segment_ids_def)
  then have "distinct (segment_ids ?S)" "set (segment_ids ?S) = set (segment_ids segs)"
    using h by (metis mset_eq_imp_distinct_iff, metis mset_eq_setD)
  with h have "\<exists>lm1 acq. acquire_in_order lm [] ?S = Some (lm1, acq)"
    by (simp add: acquire_in_order_iff)
  with h show "\<exists>reg. FindAndLockRewriteRegion idx idx' lm segment_base search_radius
                  = Some (Inr reg)"
    by (auto simp: FindAndLockRewriteRegion_def Let_def)
qed

lemma index_ok_idx5: "index_ok idx5"
  by (simp add: index_ok_def idx5_def)

lemma rewrite_region_idx5:
  "rewrite_region idx5 3 2 =
     [\<lparr>lower = 30, upper = 40, sinfo = \<lparr>seg_id = 3, page_count = 1, has_overflow = True\<rparr>\<rparr>,
      \<lparr>lower = 40, upper = 50, sinfo = \<lparr>seg_id = 4, page_count = 2, has_overflow = False\<rparr>\<rparr>,
      \<lparr>lower = 50, upper = 60, sinfo = \<lparr>seg_id = 5, page_count = 2, has_overflow = True\<rparr>\<rparr>,
      \<lparr>lower = 60, upper = 70, sinfo = \<lparr>seg_id = 6, page_count = 2, has_overflow = True\<rparr>\<rparr>]"
  by (simp add: rewrite_region_def idx5_def walk_length_def IndexIteratorToEntry_def
      upt_rec [of 2] upt_rec [of 3] upt_rec [of 4] upt_rec [of 5] upt_rec [of 6])

lemma collect_idx5:
  "\<exists>segs. collect_region idx5 40 2 = Inr segs \<and> sort_key lower segs = rewrite_region idx5 3 2"
proof -
  have i: "(3::nat) < length idx5" and k: "fst (idx5 ! 3) = 40" by (simp_all add: idx5_def)
  have u: "unat (2 :: 32 word) = 2" by simp
  have b: "walk_length 2 (rev (take 3 idx5)) \<le> 3"
    and f: "3 + walk_length 2 (drop (Suc 3) idx5) < length idx5"
    by (simp_all add: idx5_def walk_length_def)
  note c = collect_region_eq [OF index_ok_idx5 i, of 2, unfolded k u]
  note d = collected_sorted [OF index_ok_idx5 i b f, folded rewrite_region_def]
  show ?thesis by (rule exI, rule conjI, rule c, rule d)
qed

theorem FindAndLockRewriteRegion_revalidation_witness:
  "\<exists>reg. FindAndLockRewriteRegion idx5 idx2 (\<lambda>_. Unlocked) 40 2 = Some (Inr reg)
      \<and> segments reg = [] \<and> acquired reg = [3, 4, 5, 6] \<and> lock_manager reg = (\<lambda>_. Unlocked)"
proof -
  let ?lm = "(\<lambda>_. Unlocked) :: LockManager"
  from collect_idx5
  obtain segs where col: "collect_region idx5 40 2 = Inr segs"
    and srt: "sort_key lower segs = rewrite_region idx5 3 2"
    by blast
  have ids: "segment_ids (sort_key lower segs) = [3, 4, 5, 6]"
    by (simp add: srt rewrite_region_idx5 segment_ids_def)
  have "mset (segment_ids segs) = mset (segment_ids (sort_key lower segs))"
    by (simp add: segment_ids_def)
  moreover have "distinct (segment_ids (sort_key lower segs))" by (simp add: ids)
  ultimately have dist: "distinct (segment_ids segs)"
    using mset_eq_imp_distinct_iff by blast
  note rv = FindAndLockRewriteRegion_revalidation [of idx5 idx2 ?lm 40 2]
  from rv [THEN conjunct2, rule_format, of segs] col dist
  obtain reg where ret: "FindAndLockRewriteRegion idx5 idx2 ?lm 40 2 = Some (Inr reg)"
    by auto
  have nsub: "\<not> sublist (map lower (sort_key lower segs)) (map fst idx2)"
    by (simp add: srt rewrite_region_idx5 idx2_def sublist_Cons_right prefix_Cons)
  from rv [THEN conjunct1, rule_format, OF ret] col
  have a: "acquired reg = segment_ids (sort_key lower segs)"
    and b: "index_ok idx2 \<longrightarrow> (segments reg = []) = (\<not> sublist (map lower (sort_key lower segs)) (map fst idx2))"
    and c: "segments reg \<noteq> [] \<or> lock_manager reg = ?lm"
    by auto
  from b nsub index_ok_idx2 have "segments reg = []" by simp
  with a c ret ids show ?thesis by auto
qed


lemma acquire_in_order_None:
  "(acquire_in_order lm acq segs = None) =
     (\<not> (distinct (segment_ids segs) \<and> (\<forall>i\<in>set (segment_ids segs). lm i = Unlocked)))"
proof (cases "acquire_in_order lm acq segs")
  case None
  with acquire_in_order_iff [of lm acq segs] show ?thesis by auto
next
  case (Some r)
  obtain lm' acq' where "r = (lm', acq')" by (cases r) auto
  with Some acquire_in_order_iff [of lm acq segs lm' acq'] show ?thesis by auto
qed

lemma acquire_in_order_steps:
  assumes d: "distinct (segment_ids segs)"
    and free: "\<forall>i\<in>set (segment_ids segs). lm i = Unlocked"
  shows "acquire_in_order lm [] (take k segs)
           = Some (\<lambda>j. if j \<in> set (segment_ids (take k segs)) then Reorg_Locked else lm j,
                   segment_ids (take k segs))"
proof -
  have ids: "segment_ids (take k segs) = take k (segment_ids segs)"
    by (simp add: segment_ids_def take_map)
  from d have "distinct (segment_ids (take k segs))" unfolding ids by simp
  moreover from free have "\<forall>i\<in>set (segment_ids (take k segs)). lm i = Unlocked"
    unfolding ids by (meson in_set_takeD)
  ultimately show ?thesis by (simp add: acquire_in_order_iff)
qed

text \<open>
  Claim C5. For a segment base that is the key at position \<open>i\<close> of the index, the
  collected vector holds the entry at \<open>i\<close>, and sorted by lower bound it is the run of
  entries from \<open>i - b\<close> to \<open>i + f\<close>, where \<open>b\<close> and \<open>f\<close> are the lengths of the
  backward and forward walks: each at most \<open>search_radius\<close>, each stopped by the first
  segment without overflow. The sorted vector is strictly ascending in lower bound. When
  the \<open>Reorg\<close> locks of its segments are free (and the segments have different ids), the
  call returns, having taken these locks one after the other in that order: after \<open>k\<close>
  rounds of the lock loop the locks held are those of the first \<open>k\<close> segments of the
  sorted vector and no other lock has changed. It then returns the sorted vector, holding
  the locks of exactly its segments, or, when the revalidation fails, the empty vector
  with the lock manager as it was. When one of these locks is not free the call waits
  for it and does not return.
\<close>

theorem FindAndLockRewriteRegion_region:
  assumes ok: "index_ok idx" and i: "i < length idx"
  shows "walk_length (unat r) (rev (take i idx)) \<le> unat r
       \<and> walk_length (unat r) (drop (Suc i) idx) \<le> unat r
       \<and> (\<exists>segs. collect_region idx (fst (idx ! i)) r = Inr segs
            \<and> IndexIteratorToEntry idx i \<in> set segs
            \<and> sort_key lower segs = rewrite_region idx i (unat r))
       \<and> sorted_wrt (<) (map lower (rewrite_region idx i (unat r)))
       \<and> (\<forall>idx' lm.
            distinct (segment_ids (rewrite_region idx i (unat r)))
            \<and> (\<forall>j\<in>set (segment_ids (rewrite_region idx i (unat r))). lm j = Unlocked) \<longrightarrow>
              (\<exists>reg. FindAndLockRewriteRegion idx idx' lm (fst (idx ! i)) r = Some (Inr reg)
                 \<and> acquired reg = segment_ids (rewrite_region idx i (unat r))
                 \<and> ((segments reg = rewrite_region idx i (unat r)
                      \<and> lock_manager reg =
                          (\<lambda>j. if j \<in> set (segment_ids (rewrite_region idx i (unat r)))
                                then Reorg_Locked else lm j))
                    \<or> (segments reg = [] \<and> lock_manager reg = lm)))
              \<and> (\<forall>k. acquire_in_order lm [] (take k (rewrite_region idx i (unat r)))
                       = Some (\<lambda>j. if j \<in> set (segment_ids (take k (rewrite_region idx i (unat r))))
                                    then Reorg_Locked else lm j,
                               segment_ids (take k (rewrite_region idx i (unat r))))))
       \<and> (\<forall>idx' lm.
            \<not> (distinct (segment_ids (rewrite_region idx i (unat r)))
               \<and> (\<forall>j\<in>set (segment_ids (rewrite_region idx i (unat r))). lm j = Unlocked)) \<longrightarrow>
              FindAndLockRewriteRegion idx idx' lm (fst (idx ! i)) r = None)"
proof -
  let ?b = "walk_length (unat r) (rev (take i idx))"
  let ?f = "walk_length (unat r) (drop (Suc i) idx)"
  let ?segs = "IndexIteratorToEntry idx i
          # map (IndexIteratorToEntry idx) (rev [i - ?b ..< i])
          @ map (IndexIteratorToEntry idx) [Suc i ..< Suc i + ?f]"
  let ?R = "rewrite_region idx i (unat r)"
  have b: "?b \<le> i" using walk_length_le(2) [of "unat r" "rev (take i idx)"] i by simp
  have f: "i + ?f < length idx"
    using walk_length_le(2) [of "unat r" "drop (Suc i) idx"] i by simp
  have col: "collect_region idx (fst (idx ! i)) r = Inr ?segs"
    by (rule collect_region_eq [OF ok i])
  have srt: "sort_key lower ?segs = ?R"
    unfolding rewrite_region_def by (rule collected_sorted [OF ok i b f])
  have asc: "sorted_wrt (<) (map lower ?R)"
    unfolding rewrite_region_def using f by (intro sorted_lowers [OF ok]) simp
  have collected: "\<exists>segs. collect_region idx (fst (idx ! i)) r = Inr segs
            \<and> IndexIteratorToEntry idx i \<in> set segs
            \<and> sort_key lower segs = ?R"
    using col srt by (intro exI [of _ ?segs]) simp
  have granted: "(\<exists>reg. FindAndLockRewriteRegion idx idx' lm (fst (idx ! i)) r = Some (Inr reg)
                 \<and> acquired reg = segment_ids ?R
                 \<and> ((segments reg = ?R
                      \<and> lock_manager reg =
                          (\<lambda>j. if j \<in> set (segment_ids ?R) then Reorg_Locked else lm j))
                    \<or> (segments reg = [] \<and> lock_manager reg = lm)))
              \<and> (\<forall>k. acquire_in_order lm [] (take k ?R)
                       = Some (\<lambda>j. if j \<in> set (segment_ids (take k ?R))
                                    then Reorg_Locked else lm j,
                               segment_ids (take k ?R)))"
    if h: "distinct (segment_ids ?R) \<and> (\<forall>j\<in>set (segment_ids ?R). lm j = Unlocked)"
    for idx' lm
  proof -
    from h have d: "distinct (segment_ids ?R)"
      and free: "\<forall>j\<in>set (segment_ids ?R). lm j = Unlocked" by simp_all
    let ?lm1 = "\<lambda>j. if j \<in> set (segment_ids ?R) then Reorg_Locked else lm j"
    have acq: "acquire_in_order lm [] ?R = Some (?lm1, segment_ids ?R)"
      using d free by (simp add: acquire_in_order_iff)
    have rel: "release_all ?lm1 ?R = lm" using acq by (rule acquire_then_release)
    have call: "FindAndLockRewriteRegion idx idx' lm (fst (idx ! i)) r =
        (if \<not> revalidate idx' (find_key idx' (lower (hd ?R))) ?R
         then Some (Inr \<lparr>segments = [], lock_manager = release_all ?lm1 ?R,
                         acquired = segment_ids ?R\<rparr>)
         else Some (Inr \<lparr>segments = ?R, lock_manager = ?lm1, acquired = segment_ids ?R\<rparr>))"
      by (simp only: FindAndLockRewriteRegion_def col sum.case Let_def srt acq option.case
          prod.case)
    have "\<exists>reg. FindAndLockRewriteRegion idx idx' lm (fst (idx ! i)) r = Some (Inr reg)
                 \<and> acquired reg = segment_ids ?R
                 \<and> ((segments reg = ?R \<and> lock_manager reg = ?lm1)
                    \<or> (segments reg = [] \<and> lock_manager reg = lm))"
      unfolding call rel
      by (cases "revalidate idx' (find_key idx' (lower (hd ?R))) ?R") simp_all
    moreover have "\<forall>k. acquire_in_order lm [] (take k ?R)
                       = Some (\<lambda>j. if j \<in> set (segment_ids (take k ?R))
                                    then Reorg_Locked else lm j,
                               segment_ids (take k ?R))"
      using acquire_in_order_steps [OF d free] by blast
    ultimately show ?thesis by (rule conjI)
  qed
  have contended: "FindAndLockRewriteRegion idx idx' lm (fst (idx ! i)) r = None"
    if h: "\<not> (distinct (segment_ids ?R) \<and> (\<forall>j\<in>set (segment_ids ?R). lm j = Unlocked))"
    for idx' lm
  proof -
    from h have "acquire_in_order lm [] ?R = None"
      using acquire_in_order_None [of lm "[]" ?R] by blast
    then show ?thesis
      by (simp only: FindAndLockRewriteRegion_def col sum.case Let_def srt option.case)
  qed
  show ?thesis
  proof (intro conjI)
    show "?b \<le> unat r" by (rule walk_length_le(1))
    show "?f \<le> unat r" by (rule walk_length_le(1))
    show "\<exists>segs. collect_region idx (fst (idx ! i)) r = Inr segs
            \<and> IndexIteratorToEntry idx i \<in> set segs
            \<and> sort_key lower segs = ?R" by (rule collected)
    show "sorted_wrt (<) (map lower ?R)" by (rule asc)
    show "\<forall>idx' lm.
            distinct (segment_ids ?R) \<and> (\<forall>j\<in>set (segment_ids ?R). lm j = Unlocked) \<longrightarrow>
              (\<exists>reg. FindAndLockRewriteRegion idx idx' lm (fst (idx ! i)) r = Some (Inr reg)
                 \<and> acquired reg = segment_ids ?R
                 \<and> ((segments reg = ?R
                      \<and> lock_manager reg =
                          (\<lambda>j. if j \<in> set (segment_ids ?R) then Reorg_Locked else lm j))
                    \<or> (segments reg = [] \<and> lock_manager reg = lm)))
              \<and> (\<forall>k. acquire_in_order lm [] (take k ?R)
                       = Some (\<lambda>j. if j \<in> set (segment_ids (take k ?R))
                                    then Reorg_Locked else lm j,
                               segment_ids (take k ?R)))"
      by (intro allI impI) (rule granted)
    show "\<forall>idx' lm.
            \<not> (distinct (segment_ids ?R) \<and> (\<forall>j\<in>set (segment_ids ?R). lm j = Unlocked)) \<longrightarrow>
              FindAndLockRewriteRegion idx idx' lm (fst (idx ! i)) r = None"
      by (intro allI impI) (rule contended)
  qed
qed


theorem FindAndLockRewriteRegion_region_witness:
  "index_ok idx5 \<and> (3::nat) < length idx5 \<and> fst (idx5 ! 3) = 40 \<and>
   sort_key lower (projr (collect_region idx5 40 2)) =
     [\<lparr>lower = 30, upper = 40, sinfo = \<lparr>seg_id = 3, page_count = 1, has_overflow = True\<rparr>\<rparr>,
      \<lparr>lower = 40, upper = 50, sinfo = \<lparr>seg_id = 4, page_count = 2, has_overflow = False\<rparr>\<rparr>,
      \<lparr>lower = 50, upper = 60, sinfo = \<lparr>seg_id = 5, page_count = 2, has_overflow = True\<rparr>\<rparr>,
      \<lparr>lower = 60, upper = 70, sinfo = \<lparr>seg_id = 6, page_count = 2, has_overflow = True\<rparr>\<rparr>] \<and>
   (\<exists>reg. FindAndLockRewriteRegion idx5 idx5 (\<lambda>_. Unlocked) 40 2 = Some (Inr reg)
      \<and> map lower (segments reg) = [30, 40, 50, 60] \<and> acquired reg = [3, 4, 5, 6]
      \<and> map (lock_manager reg) [1, 2, 3, 4, 5, 6, 7]
           = [Unlocked, Unlocked, Reorg_Locked, Reorg_Locked, Reorg_Locked, Reorg_Locked,
              Unlocked]) \<and>
   map_option fst (acquire_in_order (\<lambda>_. Unlocked) [] (take 2 (rewrite_region idx5 3 2)))
     = Some (\<lambda>j. if j \<in> {3, 4} then Reorg_Locked else Unlocked) \<and>
   FindAndLockRewriteRegion idx5 idx5 ((\<lambda>_. Unlocked)(5 := Write_Locked)) 40 2 = None"
proof -
  let ?lm = "(\<lambda>_. Unlocked) :: LockManager"
  let ?R = "rewrite_region idx5 3 2"
  have i: "(3::nat) < length idx5" and k: "fst (idx5 ! 3) = 40" by (simp_all add: idx5_def)
  have u: "unat (2 :: 32 word) = 2" by simp
  note th = FindAndLockRewriteRegion_region [OF index_ok_idx5 i, of 2, unfolded k u]
  have ids: "segment_ids ?R = [3, 4, 5, 6]"
    by (simp add: rewrite_region_idx5 segment_ids_def)
  have ids2: "segment_ids (take 2 ?R) = [3, 4]"
    by (simp add: rewrite_region_idx5 segment_ids_def)
  have lows: "map lower ?R = [30, 40, 50, 60]" by (simp add: rewrite_region_idx5)
  from th obtain segs where "collect_region idx5 40 2 = Inr segs"
    and "sort_key lower segs = ?R"
    by blast
  then have a: "sort_key lower (projr (collect_region idx5 40 2)) = ?R" by simp
  have free: "distinct (segment_ids ?R) \<and> (\<forall>j\<in>set (segment_ids ?R). ?lm j = Unlocked)"
    by (simp add: ids)
  note rest = th [THEN conjunct2, THEN conjunct2, THEN conjunct2, THEN conjunct2]
  note granted = rest [THEN conjunct1, rule_format, where lm = "?lm" and idx' = idx5]
  from granted [OF free] obtain reg where
    ret: "FindAndLockRewriteRegion idx5 idx5 ?lm 40 2 = Some (Inr reg)"
    and acq: "acquired reg = segment_ids ?R"
    and alt: "(segments reg = ?R
              \<and> lock_manager reg = (\<lambda>j. if j \<in> set (segment_ids ?R) then Reorg_Locked else ?lm j))
            \<or> (segments reg = [] \<and> lock_manager reg = ?lm)"
    and steps: "\<forall>k. acquire_in_order ?lm [] (take k ?R)
               = Some (\<lambda>j. if j \<in> set (segment_ids (take k ?R)) then Reorg_Locked else ?lm j,
                       segment_ids (take k ?R))"
    by blast
  have "segments (projr (the (FindAndLockRewriteRegion idx5 idx5 ?lm 40 2))) \<noteq> []"
    by code_simp
  with ret have "segments reg \<noteq> []" by simp
  with alt have seg: "segments reg = ?R"
    and lm: "lock_manager reg = (\<lambda>j. if j \<in> set (segment_ids ?R) then Reorg_Locked else ?lm j)"
    by auto
  have b: "\<exists>reg. FindAndLockRewriteRegion idx5 idx5 ?lm 40 2 = Some (Inr reg)
      \<and> map lower (segments reg) = [30, 40, 50, 60] \<and> acquired reg = [3, 4, 5, 6]
      \<and> map (lock_manager reg) [1, 2, 3, 4, 5, 6, 7]
           = [Unlocked, Unlocked, Reorg_Locked, Reorg_Locked, Reorg_Locked, Reorg_Locked,
              Unlocked]"
    using ret by (intro exI [of _ reg]) (simp add: seg lm acq ids lows)
  from steps have "acquire_in_order ?lm [] (take 2 ?R)
               = Some (\<lambda>j. if j \<in> set (segment_ids (take 2 ?R)) then Reorg_Locked else ?lm j,
                       segment_ids (take 2 ?R))" by (rule spec)
  then have c: "map_option fst (acquire_in_order ?lm [] (take 2 ?R))
     = Some (\<lambda>j. if j \<in> {3, 4} then Reorg_Locked else Unlocked)"
    by (simp add: ids2)
  let ?busy = "?lm(5 := Write_Locked)"
  note contended = rest [THEN conjunct2, rule_format, where lm = "?busy" and idx' = idx5]
  have "\<not> (distinct (segment_ids ?R) \<and> (\<forall>j\<in>set (segment_ids ?R). ?busy j = Unlocked))"
    by (simp add: ids)
  then have d: "FindAndLockRewriteRegion idx5 idx5 ?busy 40 2 = None"
    by (rule contended)
  show ?thesis
    by (intro conjI) (rule index_ok_idx5, rule i, rule k, simp only: a rewrite_region_idx5,
        rule b, rule c, rule d)
qed

section \<open>Properties of the deferred-I/O simulation\<close>

lemma should_flush_frame [simp]:
  "should_flush env (s\<lparr>flushed_this_time := fl\<rparr>) p = should_flush env s p"
  "should_flush env (s\<lparr>backup_memtable := b\<rparr>) p = should_flush env s p"
  "should_flush env (s\<lparr>num_flushes := n\<rparr>) p = should_flush env s p"
  by (simp_all add: should_flush_def)

lemma plan_flush_frame:
  "plan_flush env s es = Inr s1 \<Longrightarrow>
     memtable s1 = memtable s \<and>
     memtable_entries_per_page s1 = memtable_entries_per_page s \<and>
     page_deferral_count s1 = page_deferral_count s \<and>
     num_flushes s1 = num_flushes s \<and> num_ios s1 = num_ios s \<and>
     num_reqs s1 = num_reqs s \<and> num_inserts s1 = num_inserts s \<and>
     length (flushed_this_time s1) = length (flushed_this_time s)"
proof (induction es arbitrary: s)
  case Nil
  then show ?case by simp
next
  case (Cons e es)
  obtain k v t where e: "e = (k, v, t)" by (cases e) auto
  show ?case
  proof (cases "should_flush env s (page_id_of env k)")
    case True
    with Cons.prems e
    have "plan_flush env (s\<lparr>flushed_this_time := (flushed_this_time s)[page_id_of env k := True]\<rparr>) es
            = Inr s1"
      by (simp add: Let_def split: if_splits)
    from Cons.IH [OF this] show ?thesis by simp
  next
    case False
    with Cons.prems e
    have "plan_flush env (s\<lparr>backup_memtable := MemTable_Add (backup_memtable s) k v t\<rparr>) es = Inr s1"
      by (simp add: Let_def split: if_splits)
    from Cons.IH [OF this] show ?thesis by simp
  qed
qed

lemma plan_flush_flags:
  "plan_flush env s es = Inr s1 \<Longrightarrow> p < length (flushed_this_time s) \<Longrightarrow>
     flushed_this_time s1 ! p =
       (flushed_this_time s ! p \<or>
        (should_flush env s p \<and> (\<exists>e\<in>set es. page_id_of env (fst e) = p)))"
proof (induction es arbitrary: s)
  case Nil
  then show ?case by simp
next
  case (Cons e es)
  obtain k v t where e: "e = (k, v, t)" by (cases e) auto
  let ?q = "page_id_of env k"
  show ?case
  proof (cases "should_flush env s ?q")
    case True
    let ?s = "s\<lparr>flushed_this_time := (flushed_this_time s)[?q := True]\<rparr>"
    from True Cons.prems e have run: "plan_flush env ?s es = Inr s1"
      by (simp add: Let_def split: if_splits)
    have "p < length (flushed_this_time ?s)" using Cons.prems(2) by simp
    from Cons.IH [OF run this]
    have "flushed_this_time s1 ! p =
       (flushed_this_time ?s ! p \<or>
        (should_flush env s p \<and> (\<exists>e\<in>set es. page_id_of env (fst e) = p)))"
      by simp
    moreover have "flushed_this_time ?s ! p = (flushed_this_time s ! p \<or> p = ?q)"
      using Cons.prems(2) by (cases "p = ?q") simp_all
    ultimately show ?thesis using True e by auto
  next
    case False
    let ?s = "s\<lparr>backup_memtable := MemTable_Add (backup_memtable s) k v t\<rparr>"
    from False Cons.prems e have run: "plan_flush env ?s es = Inr s1"
      by (simp add: Let_def split: if_splits)
    have "p < length (flushed_this_time ?s)" using Cons.prems(2) by simp
    from Cons.IH [OF run this]
    have "flushed_this_time s1 ! p =
       (flushed_this_time s ! p \<or>
        (should_flush env s p \<and> (\<exists>e\<in>set es. page_id_of env (fst e) = p)))"
      by simp
    then show ?thesis using False e by auto
  qed
qed

lemma plan_flush_backup:
  "plan_flush env s es = Inr s1 \<Longrightarrow>
     backup_memtable s1 =
       fold add_entry (filter (\<lambda>e. \<not> should_flush env s (page_id_of env (fst e))) es)
         (backup_memtable s)"
proof (induction es arbitrary: s)
  case Nil
  then show ?case by simp
next
  case (Cons e es)
  obtain k v t where e: "e = (k, v, t)" by (cases e) auto
  let ?q = "page_id_of env k"
  show ?case
  proof (cases "should_flush env s ?q")
    case True
    let ?s = "s\<lparr>flushed_this_time := (flushed_this_time s)[?q := True]\<rparr>"
    from True Cons.prems e have run: "plan_flush env ?s es = Inr s1"
      by (simp add: Let_def split: if_splits)
    from Cons.IH [OF run] True e show ?thesis by simp
  next
    case False
    let ?s = "s\<lparr>backup_memtable := MemTable_Add (backup_memtable s) k v t\<rparr>"
    from False Cons.prems e have run: "plan_flush env ?s es = Inr s1"
      by (simp add: Let_def split: if_splits)
    from Cons.IH [OF run] False e show ?thesis by (simp add: add_entry_def)
  qed
qed

lemma plan_flush_returns:
  "\<forall>e\<in>set es. page_id_of env (fst e) < num_pages env \<Longrightarrow> \<exists>s1. plan_flush env s es = Inr s1"
proof (induction es arbitrary: s)
  case Nil
  then show ?case by simp
next
  case (Cons e es)
  obtain k v t where e: "e = (k, v, t)" by (cases e) auto
  from Cons.prems have rest: "\<forall>e\<in>set es. page_id_of env (fst e) < num_pages env" by simp
  from Cons.prems e have "page_id_of env k < num_pages env" by simp
  with Cons.IH [OF rest] e show ?case by (simp add: Let_def)
qed

lemma plan_flush_in_range:
  "plan_flush env s es = Inr s1 \<Longrightarrow> \<forall>e\<in>set es. page_id_of env (fst e) < num_pages env"
proof (induction es arbitrary: s)
  case Nil
  then show ?case by simp
next
  case (Cons e es)
  obtain k v t where e: "e = (k, v, t)" by (cases e) auto
  from Cons.prems e have q: "page_id_of env k < num_pages env"
    by (simp add: Let_def split: if_splits)
  from Cons.prems e q obtain s' where "plan_flush env s' es = Inr s1"
    by (auto simp: Let_def split: if_splits)
  from Cons.IH [OF this] q e show ?case by simp
qed

lemma MemTable_Add_snoc:
  "\<forall>e\<in>set mt. fst e \<le> k \<Longrightarrow> MemTable_Add mt k v t = mt @ [(k, v, t)]"
  by (simp add: MemTable_Add_def)

lemma fold_add_entry_sorted:
  "sorted (map fst es) \<Longrightarrow> \<forall>b\<in>set mt. \<forall>e\<in>set es. fst b \<le> fst e \<Longrightarrow>
   fold add_entry es mt = mt @ es"
proof (induction es arbitrary: mt)
  case Nil
  then show ?case by simp
next
  case (Cons e es)
  obtain k v t where e: "e = (k, v, t)" by (cases e) auto
  have one: "add_entry e mt = mt @ [e]"
    using Cons.prems(2) by (simp add: add_entry_def e MemTable_Add_snoc)
  have "fold add_entry es (mt @ [e]) = (mt @ [e]) @ es"
  proof (rule Cons.IH)
    show "sorted (map fst es)" using Cons.prems(1) by simp
    show "\<forall>b\<in>set (mt @ [e]). \<forall>x\<in>set es. fst b \<le> fst x"
      using Cons.prems by auto
  qed
  with one show ?case by simp
qed

lemma sorted_MemTable_Add:
  "sorted (map fst mt) \<Longrightarrow> sorted (map fst (MemTable_Add mt k v t))"
proof (induction mt)
  case Nil
  then show ?case by (simp add: MemTable_Add_def)
next
  case (Cons a mt)
  then have IH: "sorted (map fst (MemTable_Add mt k v t))" by simp
  show ?case
  proof (cases "fst a \<le> k")
    case True
    have "MemTable_Add (a # mt) k v t = a # MemTable_Add mt k v t"
      using True by (simp add: MemTable_Add_def)
    moreover have "\<forall>x\<in>set (MemTable_Add mt k v t). fst a \<le> fst x"
      using Cons.prems True
      by (auto simp: MemTable_Add_def dest!: set_takeWhileD set_dropWhileD)
    ultimately show ?thesis using IH by simp
  next
    case False
    then have "MemTable_Add (a # mt) k v t = (k, v, t) # a # mt"
      by (simp add: MemTable_Add_def)
    with False Cons.prems show ?thesis by auto
  qed
qed

lemma set_MemTable_Add: "set (MemTable_Add mt k v t) = insert (k, v, t) (set mt)"
proof -
  have "set (takeWhile (\<lambda>e. fst e \<le> k) mt) \<union> set (dropWhile (\<lambda>e. fst e \<le> k) mt) = set mt"
    by (metis set_append takeWhile_dropWhile_id)
  then show ?thesis unfolding MemTable_Add_def by (simp add: Un_insert_right)
qed

lemma flush_pages_upto:
  assumes len: "length (memtable_entries_per_page s) = N" "length (page_deferral_count s) = N"
    "length (flushed_this_time s) = N"
  shows "n \<le> N \<Longrightarrow> flushed_upto n s (fold flush_page [0..<n] s)"
proof (induction n)
  case 0
  then show ?case by (simp add: flushed_upto_def)
next
  case (Suc n)
  let ?s = "fold flush_page [0..<n] s"
  from Suc have IH: "flushed_upto n s ?s" and n: "n < N" by simp_all
  have step: "fold flush_page [0..<Suc n] s = flush_page n ?s" by simp
  have fl: "flushed_this_time ?s ! n = flushed_this_time s ! n"
    and dc: "page_deferral_count ?s ! n = page_deferral_count s ! n"
    using IH n len by (simp_all add: flushed_upto_def)
  have lens: "length (memtable_entries_per_page ?s) = N" "length (page_deferral_count ?s) = N"
    "length (flushed_this_time ?s) = N"
    using IH len by (simp_all add: flushed_upto_def)
  show ?case
  proof (cases "flushed_this_time s ! n")
    case True
    then have eq: "flush_page n ?s =
      ?s\<lparr> num_ios := num_ios ?s + 1,
          memtable_entries_per_page := (memtable_entries_per_page ?s)[n := 0],
          page_deferral_count := (page_deferral_count ?s)[n := 0],
          flushed_this_time := (flushed_this_time ?s)[n := False] \<rparr>"
      using fl by (simp add: flush_page_def)
    show ?thesis
      unfolding step eq flushed_upto_def
      using IH len lens n True
      by (auto simp: flushed_upto_def nth_list_update less_Suc_eq)
  next
    case False
    then have eq: "flush_page n ?s =
      ?s\<lparr> page_deferral_count := (page_deferral_count ?s)[n := page_deferral_count s ! n + 1] \<rparr>"
      using fl dc by (simp add: flush_page_def)
    show ?thesis
      unfolding step eq flushed_upto_def
      using IH len lens n False
      by (auto simp: flushed_upto_def nth_list_update less_Suc_eq)
  qed
qed

lemma planned_returns:
  "\<forall>e\<in>set (memtable s). page_id_of env (fst e) < num_pages env \<Longrightarrow>
   \<exists>s1. planned env s = Inr s1"
  unfolding planned_def by (rule plan_flush_returns)

lemma planned_props:
  assumes ok: "state_ok env s" and pl: "planned env s = Inr s1"
  shows "\<forall>p<num_pages env. flushed_this_time s1 ! p = (should_flush env s p \<and> targeted env s p)"
    and "backup_memtable s1 =
           filter (\<lambda>e. \<not> should_flush env s (page_id_of env (fst e))) (memtable s)"
    and "memtable s1 = memtable s"
    and "memtable_entries_per_page s1 = memtable_entries_per_page s"
    and "page_deferral_count s1 = page_deferral_count s"
    and "length (flushed_this_time s1) = num_pages env"
    and "\<forall>e\<in>set (memtable s). page_id_of env (fst e) < num_pages env"
proof -
  let ?s0 = "s\<lparr>num_flushes := num_flushes s + 1\<rparr>"
  from pl have run: "plan_flush env ?s0 (memtable s) = Inr s1" by (simp add: planned_def)
  from ok have len: "length (flushed_this_time s) = num_pages env"
    and clear: "\<forall>b\<in>set (flushed_this_time s). \<not> b"
    and bk: "backup_memtable s = []" and srt: "sorted (map fst (memtable s))"
    unfolding state_ok_def by blast+
  show "\<forall>p<num_pages env. flushed_this_time s1 ! p = (should_flush env s p \<and> targeted env s p)"
  proof (intro allI impI)
    fix p assume p: "p < num_pages env"
    then have "\<not> flushed_this_time s ! p" using clear len by (metis nth_mem)
    moreover have "p < length (flushed_this_time ?s0)" using p len by simp
    ultimately show "flushed_this_time s1 ! p = (should_flush env s p \<and> targeted env s p)"
      using plan_flush_flags [OF run, of p] by (simp add: targeted_def)
  qed
  let ?keep = "filter (\<lambda>e. \<not> should_flush env s (page_id_of env (fst e))) (memtable s)"
  have "sorted (map fst ?keep)" using srt by (rule sorted_filter)
  then have "fold add_entry ?keep [] = [] @ ?keep"
    by (rule fold_add_entry_sorted) simp
  with plan_flush_backup [OF run] bk show "backup_memtable s1 = ?keep" by simp
  from plan_flush_frame [OF run] len
  show "memtable s1 = memtable s"
    and "memtable_entries_per_page s1 = memtable_entries_per_page s"
    and "page_deferral_count s1 = page_deferral_count s"
    and "length (flushed_this_time s1) = num_pages env"
    by simp_all
  from plan_flush_in_range [OF run]
  show "\<forall>e\<in>set (memtable s). page_id_of env (fst e) < num_pages env" .
qed

lemma flush_cycle_props:
  assumes ok: "state_ok env s" and pl: "planned env s = Inr s1"
  shows "\<exists>s'. flush_cycle env s = Inr s' \<and> state_ok env s' \<and>
           memtable s' = backup_memtable s1 \<and>
           (\<forall>p<num_pages env.
              page_deferral_count s' ! p =
                (if flushed_this_time s1 ! p then 0 else page_deferral_count s ! p + 1) \<and>
              memtable_entries_per_page s' ! p =
                (if flushed_this_time s1 ! p then 0 else memtable_entries_per_page s ! p))"
proof -
  let ?N = "num_pages env"
  let ?s2 = "fold flush_page [0..<?N] s1"
  let ?s' = "?s2\<lparr>memtable := backup_memtable ?s2, backup_memtable := []\<rparr>"
  note pp = planned_props [OF ok pl]
  from ok have lens: "length (memtable_entries_per_page s) = ?N"
    "length (page_deferral_count s) = ?N" and srt: "sorted (map fst (memtable s))"
    by (simp_all add: state_ok_def)
  have len1: "length (memtable_entries_per_page s1) = ?N" "length (page_deferral_count s1) = ?N"
    "length (flushed_this_time s1) = ?N"
    using pp lens by simp_all
  have up: "flushed_upto ?N s1 ?s2"
    by (rule flush_pages_upto [OF len1]) simp
  have fc: "flush_cycle env s = Inr ?s'"
    using pl by (simp add: flush_cycle_def Let_def)
  have clear: "\<forall>b\<in>set (flushed_this_time ?s2). \<not> b"
  proof
    fix b assume "b \<in> set (flushed_this_time ?s2)"
    then obtain p where "p < length (flushed_this_time ?s2)" "flushed_this_time ?s2 ! p = b"
      by (auto simp: in_set_conv_nth)
    with up len1 show "\<not> b" by (auto simp: flushed_upto_def)
  qed
  have "sorted (map fst (backup_memtable s1))"
    unfolding pp(2) using srt by (rule sorted_filter)
  moreover have "\<forall>e\<in>set (backup_memtable s1). page_id_of env (fst e) < num_pages env"
    unfolding pp(2) using pp(7) by simp
  ultimately have ok': "state_ok env ?s'"
    using up len1 clear unfolding state_ok_def flushed_upto_def by simp
  have cnt: "\<forall>p<?N.
              page_deferral_count ?s' ! p =
                (if flushed_this_time s1 ! p then 0 else page_deferral_count s ! p + 1) \<and>
              memtable_entries_per_page ?s' ! p =
                (if flushed_this_time s1 ! p then 0 else memtable_entries_per_page s ! p)"
    using up len1 pp(4,5) by (simp add: flushed_upto_def)
  have mt: "memtable ?s' = backup_memtable s1"
    using up by (simp add: flushed_upto_def)
  from fc ok' mt cnt show ?thesis by blast
qed

lemma state_ok_planned: "state_ok env s \<Longrightarrow> \<exists>s1. planned env s = Inr s1"
  by (rule planned_returns) (simp add: state_ok_def)

lemma state_ok_initial: "state_ok env (initial_state env)"
  by (simp add: state_ok_def initial_state_def)

lemma add_request_props:
  assumes ok: "state_ok env s" and ad: "add_request env s req = Inr s'"
  shows "state_ok env s'" and "page_deferral_count s' = page_deferral_count s"
proof -
  from ok have parts: "length (memtable_entries_per_page s) = num_pages env"
    "length (page_deferral_count s) = num_pages env"
    "length (flushed_this_time s) = num_pages env"
    "\<forall>b\<in>set (flushed_this_time s). \<not> b"
    "backup_memtable s = []" "sorted (map fst (memtable s))"
    "\<forall>e\<in>set (memtable s). page_id_of env (fst e) < num_pages env"
    unfolding state_ok_def by blast+
  show "page_deferral_count s' = page_deferral_count s"
    using ad by (auto simp: add_request_def Let_def split: if_splits)
  show "state_ok env s'"
  proof (cases "req_op req = kRead \<or> req_op req = kScan")
    case True
    with ad have "s' = s\<lparr>num_reqs := num_reqs s + 1\<rparr>" by (auto simp: add_request_def)
    with parts show ?thesis unfolding state_ok_def by simp
  next
    case False
    let ?q = "page_id_of env (req_key req)"
    let ?mt = "MemTable_Add (memtable s) (req_key req) (req_value req) kWrite"
    from False ad have q: "?q < num_pages env"
      by (auto simp: add_request_def Let_def split: if_splits)
    from False ad q have s': "s' = s\<lparr> num_reqs := num_reqs s + 1, num_inserts := num_inserts s + 1,
         memtable := ?mt,
         memtable_entries_per_page := (memtable_entries_per_page s)
            [?q := memtable_entries_per_page s ! ?q + 1] \<rparr>"
      by (auto simp: add_request_def Let_def)
    have "sorted (map fst ?mt)" using parts(6) by (rule sorted_MemTable_Add)
    moreover have "\<forall>e\<in>set ?mt. page_id_of env (fst e) < num_pages env"
      using parts(7) q by (simp add: set_MemTable_Add)
    ultimately show ?thesis using parts unfolding state_ok_def s' by simp
  qed
qed

lemma add_requests_props:
  "state_ok env s \<Longrightarrow> add_requests env s reqs = Inr s' \<Longrightarrow>
   state_ok env s' \<and> page_deferral_count s' = page_deferral_count s"
proof (induction reqs arbitrary: s)
  case Nil
  then show ?case by simp
next
  case (Cons req reqs)
  from Cons.prems(2) obtain s1 where a: "add_request env s req = Inr s1"
    and r: "add_requests env s1 reqs = Inr s'"
    by (auto split: sum.splits)
  from add_request_props [OF Cons.prems(1) a] Cons.IH [OF _ r] show ?case by simp
qed

lemma word_succ_unat:
  fixes c m :: "64 word"
  assumes "c < m"
  shows "unat (c + 1) = Suc (unat c)"
proof -
  have "c \<noteq> - 1" using assms by (metis word_order.extremum_strict)
  then have "1 + c \<noteq> 0" by (metis add.commute add_eq_0_iff)
  from unatSuc [OF this] show ?thesis by (simp add: add.commute)
qed

lemma deferred_step:
  assumes ok: "state_ok env s" and df: "deferred env s p"
    and fc: "flush_cycle env s = Inr s'"
  shows "page_deferral_count s' ! p = page_deferral_count s ! p + 1"
    and "page_deferral_count s ! p < max_deferrals env" and "state_ok env s'"
proof -
  from state_ok_planned [OF ok] obtain s1 where pl: "planned env s = Inr s1" by blast
  from df have p: "p < num_pages env" and ns: "\<not> should_flush env s p"
    by (simp_all add: deferred_def)
  from planned_props(1) [OF ok pl] p ns have nf: "\<not> flushed_this_time s1 ! p" by simp
  from flush_cycle_props [OF ok pl] fc p nf
  show "page_deferral_count s' ! p = page_deferral_count s ! p + 1" and "state_ok env s'"
    by auto
  from ns show "page_deferral_count s ! p < max_deferrals env"
    by (simp add: should_flush_def not_le)
qed

lemma deferral_streak:
  "state_ok env s \<Longrightarrow> deferred_throughout env p s batches \<Longrightarrow> batches \<noteq> [] \<Longrightarrow>
   unat (page_deferral_count s ! p) + length batches \<le> unat (max_deferrals env)"
proof (induction batches arbitrary: s)
  case Nil
  then show ?case by simp
next
  case (Cons reqs rest)
  from Cons.prems(2) obtain s1 s2 where df: "deferred env s p"
    and fc: "flush_cycle env s = Inr s1" and ad: "add_requests env s1 reqs = Inr s2"
    and rest: "deferred_throughout env p s2 rest"
    by (auto split: sum.splits)
  note st = deferred_step [OF Cons.prems(1) df fc]
  from add_requests_props [OF st(3) ad]
  have ok2: "state_ok env s2" and c2: "page_deferral_count s2 ! p = page_deferral_count s ! p + 1"
    using st(1) by simp_all
  have suc: "unat (page_deferral_count s ! p + 1) = Suc (unat (page_deferral_count s ! p))"
    using st(2) by (rule word_succ_unat)
  show ?case
  proof (cases "rest = []")
    case True
    from st(2) have "unat (page_deferral_count s ! p) < unat (max_deferrals env)"
      by (simp add: word_less_nat_alt)
    with True show ?thesis by simp
  next
    case False
    from Cons.IH [OF ok2 rest False] c2 suc show ?thesis by simp
  qed
qed

lemma process_request_ok:
  assumes ok: "state_ok env s" and pr: "process_request env s req = Inr s'"
  shows "state_ok env s'"
proof -
  from pr obtain s1 where ad: "add_request env s req = Inr s1"
    by (auto simp: process_request_def split: sum.splits)
  note ok1 = add_request_props(1) [OF ok ad]
  from state_ok_planned [OF ok1] obtain s2 where "planned env s1 = Inr s2" by blast
  from flush_cycle_props [OF ok1 this]
  obtain s3 where "flush_cycle env s1 = Inr s3" "state_ok env s3" by blast
  with pr ad ok1 show ?thesis
    by (auto simp: process_request_def split: if_splits)
qed

lemma run_workload_ok:
  "state_ok env s \<Longrightarrow> run_workload env s reqs = Inr s' \<Longrightarrow> state_ok env s'"
proof (induction reqs arbitrary: s)
  case Nil
  then show ?case by simp
next
  case (Cons req reqs)
  from Cons.prems(2) obtain s1 where p: "process_request env s req = Inr s1"
    and r: "run_workload env s1 reqs = Inr s'"
    by (auto split: sum.splits)
  from Cons.IH [OF process_request_ok [OF Cons.prems(1) p] r] show ?case .
qed

text \<open>
  Claim C6. In a flush cycle the memtable entries are processed in key order; after the
  first loop the flag of a page is set exactly when an entry belongs to it and
  \<open>memtableEntriesForPage \<ge> ioThreshold\<close> or \<open>pageDeferralCount \<ge> maxDeferrals\<close>
  holds for it; the backup memtable holds exactly the entries for which that test fails,
  and becomes the memtable after the cycle. So every memtable entry either belongs to a
  page flushed this round or is in the memtable after the cycle, and never both.
\<close>

theorem flush_partition:
  assumes ok: "state_ok env s"
  shows "\<exists>s1 s'. planned env s = Inr s1 \<and> flush_cycle env s = Inr s'
     \<and> sorted (map fst (memtable s))
     \<and> length (flushed_this_time s1) = num_pages env
     \<and> (\<forall>p<num_pages env.
           flushed_this_time s1 ! p = (targeted env s p \<and> should_flush env s p))
     \<and> backup_memtable s1 =
           filter (\<lambda>e. \<not> should_flush env s (page_id_of env (fst e))) (memtable s)
     \<and> memtable s' = backup_memtable s1
     \<and> (\<forall>e\<in>set (memtable s).
           page_id_of env (fst e) < num_pages env \<and>
           flushed_this_time s1 ! page_id_of env (fst e) = (e \<notin> set (memtable s')))"
proof -
  from state_ok_planned [OF ok] obtain s1 where pl: "planned env s = Inr s1" by blast
  note pp = planned_props [OF ok pl]
  from flush_cycle_props [OF ok pl] obtain s' where fc: "flush_cycle env s = Inr s'"
    and mt: "memtable s' = backup_memtable s1" by blast
  from ok have srt: "sorted (map fst (memtable s))" unfolding state_ok_def by blast
  have flags: "\<forall>p<num_pages env.
           flushed_this_time s1 ! p = (targeted env s p \<and> should_flush env s p)"
    using pp(1) by auto
  have part: "\<forall>e\<in>set (memtable s).
           page_id_of env (fst e) < num_pages env \<and>
           flushed_this_time s1 ! page_id_of env (fst e) = (e \<notin> set (memtable s'))"
  proof
    fix e assume e: "e \<in> set (memtable s)"
    then have q: "page_id_of env (fst e) < num_pages env" using pp(7) by simp
    have "targeted env s (page_id_of env (fst e))" using e by (auto simp: targeted_def)
    with flags q have "flushed_this_time s1 ! page_id_of env (fst e)
                         = should_flush env s (page_id_of env (fst e))" by simp
    moreover have "(e \<notin> set (memtable s')) = should_flush env s (page_id_of env (fst e))"
      using e by (simp add: mt pp(2))
    ultimately show "page_id_of env (fst e) < num_pages env \<and>
           flushed_this_time s1 ! page_id_of env (fst e) = (e \<notin> set (memtable s'))"
      using q by simp
  qed
  from pl fc srt pp(6) flags pp(2) mt part show ?thesis by blast
qed

lemma state_ok_state3: "state_ok env3 state3"
  by (simp add: state_ok_def env3_def state3_def)

lemma state_ok_state1: "state_ok env3 state1"
  by (simp add: state_ok_def env3_def state1_def)

theorem flush_partition_witness:
  "state_ok env3 state3 \<and>
   (\<exists>s1 s'. planned env3 state3 = Inr s1 \<and> flush_cycle env3 state3 = Inr s'
      \<and> flushed_this_time s1 = [False, True] \<and> memtable s' = [(5, ''a'', kWrite)])"
proof -
  from flush_partition [OF state_ok_state3]
  obtain s1 s' where pl: "planned env3 state3 = Inr s1" and fc: "flush_cycle env3 state3 = Inr s'"
    and len: "length (flushed_this_time s1) = num_pages env3"
    and flags: "\<forall>p<num_pages env3.
           flushed_this_time s1 ! p = (targeted env3 state3 p \<and> should_flush env3 state3 p)"
    and bk: "backup_memtable s1 =
           filter (\<lambda>e. \<not> should_flush env3 state3 (page_id_of env3 (fst e))) (memtable state3)"
    and mt: "memtable s' = backup_memtable s1"
    by blast
  have f0: "\<not> flushed_this_time s1 ! 0" and f1: "flushed_this_time s1 ! 1"
    using flags
    by (simp_all add: env3_def state3_def targeted_def should_flush_def word_le_nat_alt)
  have "flushed_this_time s1 = [False, True]"
  proof (rule nth_equalityI)
    show "length (flushed_this_time s1) = length [False, True]"
      using len by (simp add: env3_def)
    fix i assume "i < length (flushed_this_time s1)"
    then have "i = 0 \<or> i = 1" using len by (auto simp: env3_def)
    then show "flushed_this_time s1 ! i = [False, True] ! i" using f0 f1 by auto
  qed
  moreover have "memtable s' = [(5, ''a'', kWrite)]"
    unfolding mt bk by (simp add: env3_def state3_def should_flush_def word_le_nat_alt)
  ultimately show ?thesis using pl fc state_ok_state3 by blast
qed

text \<open>
  Claim C7. After a flush cycle a page flushed this round has both counters at 0 and
  every other page has its deferral count incremented by one (modulo \<open>2^64\<close>) and its
  entry count unchanged. A page whose deferral count has reached \<open>maxDeferrals\<close> is
  flushed, not deferred, in a cycle in which an entry targets it, and until then its
  count stays at or above \<open>maxDeferrals\<close> (as long as the 64-bit counter does not wrap).
  Hence a page is never deferred in more than \<open>maxDeferrals\<close> consecutive cycles: if it
  is deferred in each of \<open>n \<ge> 1\<close> consecutive cycles, its deferral count before the
  first plus \<open>n\<close> is at most \<open>maxDeferrals\<close>.
\<close>

theorem deferral_bound:
  assumes ok: "state_ok env s"
  shows "(\<exists>s1 s'. planned env s = Inr s1 \<and> flush_cycle env s = Inr s' \<and> state_ok env s' \<and>
           (\<forall>p<num_pages env.
              (flushed_this_time s1 ! p \<longrightarrow>
                 memtable_entries_per_page s' ! p = 0 \<and> page_deferral_count s' ! p = 0) \<and>
              (\<not> flushed_this_time s1 ! p \<longrightarrow>
                 page_deferral_count s' ! p = page_deferral_count s ! p + 1 \<and>
                 memtable_entries_per_page s' ! p = memtable_entries_per_page s ! p) \<and>
              (max_deferrals env \<le> page_deferral_count s ! p \<and> targeted env s p \<longrightarrow>
                 flushed_this_time s1 ! p \<and> \<not> deferred env s p) \<and>
              (max_deferrals env \<le> page_deferral_count s ! p \<and> \<not> targeted env s p \<and>
               page_deferral_count s ! p \<noteq> - 1 \<longrightarrow>
                 max_deferrals env \<le> page_deferral_count s' ! p)))
       \<and> (\<forall>p batches. deferred_throughout env p s batches \<and> batches \<noteq> [] \<longrightarrow>
             unat (page_deferral_count s ! p) + length batches \<le> unat (max_deferrals env))"
proof (intro conjI allI impI)
  from state_ok_planned [OF ok] obtain s1 where pl: "planned env s = Inr s1" by blast
  note pp = planned_props [OF ok pl]
  from flush_cycle_props [OF ok pl] obtain s' where fc: "flush_cycle env s = Inr s'"
    and ok': "state_ok env s'"
    and cnt: "\<forall>p<num_pages env.
              page_deferral_count s' ! p =
                (if flushed_this_time s1 ! p then 0 else page_deferral_count s ! p + 1) \<and>
              memtable_entries_per_page s' ! p =
                (if flushed_this_time s1 ! p then 0 else memtable_entries_per_page s ! p)"
    by blast
  have "\<forall>p<num_pages env.
              (flushed_this_time s1 ! p \<longrightarrow>
                 memtable_entries_per_page s' ! p = 0 \<and> page_deferral_count s' ! p = 0) \<and>
              (\<not> flushed_this_time s1 ! p \<longrightarrow>
                 page_deferral_count s' ! p = page_deferral_count s ! p + 1 \<and>
                 memtable_entries_per_page s' ! p = memtable_entries_per_page s ! p) \<and>
              (max_deferrals env \<le> page_deferral_count s ! p \<and> targeted env s p \<longrightarrow>
                 flushed_this_time s1 ! p \<and> \<not> deferred env s p) \<and>
              (max_deferrals env \<le> page_deferral_count s ! p \<and> \<not> targeted env s p \<and>
               page_deferral_count s ! p \<noteq> - 1 \<longrightarrow>
                 max_deferrals env \<le> page_deferral_count s' ! p)"
  proof (intro allI impI)
    fix p assume p: "p < num_pages env"
    from cnt p have c: "page_deferral_count s' ! p =
                (if flushed_this_time s1 ! p then 0 else page_deferral_count s ! p + 1)"
      and m: "memtable_entries_per_page s' ! p =
                (if flushed_this_time s1 ! p then 0 else memtable_entries_per_page s ! p)"
      by simp_all
    from pp(1) p have fl: "flushed_this_time s1 ! p = (should_flush env s p \<and> targeted env s p)"
      by simp
    have a: "max_deferrals env \<le> page_deferral_count s ! p \<and> targeted env s p \<longrightarrow>
                 flushed_this_time s1 ! p \<and> \<not> deferred env s p"
      using fl by (simp add: should_flush_def deferred_def)
    have b: "max_deferrals env \<le> page_deferral_count s ! p \<and> \<not> targeted env s p \<and>
               page_deferral_count s ! p \<noteq> - 1 \<longrightarrow>
                 max_deferrals env \<le> page_deferral_count s' ! p"
    proof
      assume h: "max_deferrals env \<le> page_deferral_count s ! p \<and> \<not> targeted env s p \<and>
               page_deferral_count s ! p \<noteq> - 1"
      then have "page_deferral_count s ! p < - 1"
        by (metis word_order.not_eq_extremum)
      from word_succ_unat [OF this]
      have "page_deferral_count s ! p \<le> page_deferral_count s ! p + 1"
        by (simp add: word_le_nat_alt)
      with h have "max_deferrals env \<le> page_deferral_count s ! p + 1"
        by (meson order_trans)
      with h c fl show "max_deferrals env \<le> page_deferral_count s' ! p" by simp
    qed
    from c m a b
    show "(flushed_this_time s1 ! p \<longrightarrow>
                 memtable_entries_per_page s' ! p = 0 \<and> page_deferral_count s' ! p = 0) \<and>
              (\<not> flushed_this_time s1 ! p \<longrightarrow>
                 page_deferral_count s' ! p = page_deferral_count s ! p + 1 \<and>
                 memtable_entries_per_page s' ! p = memtable_entries_per_page s ! p) \<and>
              (max_deferrals env \<le> page_deferral_count s ! p \<and> targeted env s p \<longrightarrow>
                 flushed_this_time s1 ! p \<and> \<not> deferred env s p) \<and>
              (max_deferrals env \<le> page_deferral_count s ! p \<and> \<not> targeted env s p \<and>
               page_deferral_count s ! p \<noteq> - 1 \<longrightarrow>
                 max_deferrals env \<le> page_deferral_count s' ! p)"
      by simp
  qed
  with pl fc ok'
  show "\<exists>s1 s'. planned env s = Inr s1 \<and> flush_cycle env s = Inr s' \<and> state_ok env s' \<and>
           (\<forall>p<num_pages env.
              (flushed_this_time s1 ! p \<longrightarrow>
                 memtable_entries_per_page s' ! p = 0 \<and> page_deferral_count s' ! p = 0) \<and>
              (\<not> flushed_this_time s1 ! p \<longrightarrow>
                 page_deferral_count s' ! p = page_deferral_count s ! p + 1 \<and>
                 memtable_entries_per_page s' ! p = memtable_entries_per_page s ! p) \<and>
              (max_deferrals env \<le> page_deferral_count s ! p \<and> targeted env s p \<longrightarrow>
                 flushed_this_time s1 ! p \<and> \<not> deferred env s p) \<and>
              (max_deferrals env \<le> page_deferral_count s ! p \<and> \<not> targeted env s p \<and>
               page_deferral_count s ! p \<noteq> - 1 \<longrightarrow>
                 max_deferrals env \<le> page_deferral_count s' ! p))"
    by blast
next
  fix p batches
  assume "deferred_throughout env p s batches \<and> batches \<noteq> []"
  then show "unat (page_deferral_count s ! p) + length batches \<le> unat (max_deferrals env)"
    using deferral_streak [OF ok] by blast
qed

lemma streak_state1:
  "deferred_throughout env3 0 state1 [[], []]"
  "\<not> deferred_throughout env3 0 state1 [[], [], []]"
  by code_simp+

theorem deferral_bound_witness:
  "state_ok env3 state1 \<and> deferred_throughout env3 0 state1 [[], []]
   \<and> \<not> deferred_throughout env3 0 state1 [[], [], []]
   \<and> unat (page_deferral_count state1 ! 0) + length [[], [] :: Request list]
        \<le> unat (max_deferrals env3)"
  using deferral_bound [OF state_ok_state1, THEN conjunct2, rule_format, of 0 "[[], []]"]
    streak_state1 state_ok_state1
  by simp

section \<open>Properties of GetRange\<close>




















lemma chains_ok_next:
  "chains_ok (c # c' # cs) \<Longrightarrow> \<forall>r\<in>set (chain_records c). fst r < chain_lower c'"
  by simp







































































lemma reserved_examples:
  "reserved platform empty_batch 3" "reserved platform empty_batch 30"
  "reserved platform used_batch 30" "reserved platform used_batch 4"
  "\<not> reserved platform empty_batch (- 1)"
  by code_simp+










end
